theory Spec2Isabelle
  imports Main "HOL-Library.Word"
begin

unbundle bit_operations_syntax

section \<open>The consistency checker of a bbolt transaction (tx\_check.go)\<close>

text \<open>
  The checker reads a transaction snapshot and sends one error per defect on a channel.
  The embedding below follows \<^verbatim>\<open>tx_check.go\<close> function by function. The channel is
  the list of findings sent so far (a send appends), the two maps of \<^verbatim>\<open>tx.check\<close> are
  partial maps, machine integers are words of the width the source converts them to, and a
  recursion over page ids, which the source does not bound, takes a recursion budget and
  returns \<open>None\<close> when the budget is used up.
\<close>

subsection \<open>Data the source reads\<close>

text \<open>
  Modelled from the spec: the type \<^verbatim>\<open>pgid\<close> is declared outside \<^verbatim>\<open>tx_check.go\<close>; the
  spec calls it an unsigned integer and bbolt declares it \<^verbatim>\<open>uint64\<close>. Arithmetic on it wraps.
\<close>

type_synonym pgid = "64 word"

type_synonym byte = "8 word"

text \<open>A Go \<^verbatim>\<open>[]byte\<close>: \<open>None\<close> is the \<^verbatim>\<open>nil\<close> slice, \<open>Some bs\<close> a slice holding \<open>bs\<close>.\<close>

type_synonym slice = "byte list option"

text \<open>
  Modelled from the spec: the page header and the element views are declared outside
  \<^verbatim>\<open>tx_check.go\<close>. A page is its header (\<open>id\<close>, \<open>flags\<close>, \<open>overflow\<close>; the source
  compares \<open>overflow\<close> with a \<^verbatim>\<open>uint32\<close> counter) and the two ordered element sequences the
  accessors \<^verbatim>\<open>branchPageElements()\<close> and \<^verbatim>\<open>leafPageElements()\<close> return; \<^verbatim>\<open>count\<close> is the
  number of elements. \<^verbatim>\<open>elem.key()\<close> is never \<^verbatim>\<open>nil\<close>, so an element stores the key bytes.
\<close>

record branchPageElement =
  bkey :: "byte list"
  bpgid :: pgid

record leafPageElement =
  lkey :: "byte list"
  lvalue :: "byte list"

record page =
  id_p :: pgid
  flags :: "16 word"
  overflow :: "32 word"
  branchPageElements :: "branchPageElement list"
  leafPageElements :: "leafPageElement list"

text \<open>
  Modelled from the spec: a bucket is its root page id (\<open>0\<close> for an inline bucket) and what the
  iteration \<^verbatim>\<open>b.ForEach\<close> meets: one entry per key, with the result of \<^verbatim>\<open>b.Bucket(k)\<close>
  (\<open>None\<close> for \<^verbatim>\<open>nil\<close>, when the value is not a nested bucket).
\<close>

datatype bucket = Bucket (root: pgid) (entries: "(byte list \<times> bucket option) list")

text \<open>
  The constants \<^verbatim>\<open>branchPageFlag\<close>, \<^verbatim>\<open>leafPageFlag\<close> and \<^verbatim>\<open>pgidNoFreelist\<close> are declared
  outside \<^verbatim>\<open>tx_check.go\<close>; every function below takes them as a parameter.
\<close>

record decls =
  branchPageFlag :: "16 word"
  leafPageFlag :: "16 word"
  pgidNoFreelist :: pgid

text \<open>
  The transaction as the checker reads it: \<^verbatim>\<open>tx.page(id)\<close>, \<^verbatim>\<open>tx.meta.pgid\<close>,
  \<^verbatim>\<open>tx.meta.freelist\<close>, \<^verbatim>\<open>tx.root\<close>, and the ids \<^verbatim>\<open>tx.db.freelist.copyall\<close> writes
  into \<^verbatim>\<open>all\<close> (\<^verbatim>\<open>count()\<close> of them).
\<close>

record tx =
  page_of :: "pgid \<Rightarrow> page"
  meta_pgid :: pgid
  meta_freelist :: pgid
  root_bucket :: bucket
  freelist_all :: "pgid list"

record KeyValueStringer =
  KeyToString :: "slice \<Rightarrow> string"
  ValueToString :: "slice \<Rightarrow> string"

subsection \<open>Findings\<close>

text \<open>
  One constructor per \<^verbatim>\<open>fmt.Errorf\<close> call of the source, holding the arguments of the call
  in their order. Where the source passes \<^verbatim>\<open>int(x)\<close> for a page id the argument is the
  signed reading of the 64-bit word (\<^verbatim>\<open>int\<close> of a 64-bit platform). \<^verbatim>\<open>p.typ()\<close> is a function
  of the flags and is declared outside \<^verbatim>\<open>tx_check.go\<close>: the finding holds the flags.
\<close>

datatype finding =
    DoubleFreed pgid
  | OutOfBounds int int
  | MultipleReferences int
  | ReachableFreed int
  | InvalidPageType int "16 word"
  | UnreachableUnfreed int
  | BranchBelowAncestorMin nat string pgid "pgid list"
  | BranchAboveAncestorMax nat string pgid string "pgid list"
  | LeafBelowAncestorMin nat string pgid "pgid list"
  | LeafOutOfOrder nat string pgid string "pgid list"
  | LeafDuplicateKey nat string pgid string "pgid list"
  | LeafAboveAncestorMax nat string pgid string "pgid list"
  | UnexpectedPageType pgid

subsection \<open>The state of one check\<close>

text \<open>
  \<^verbatim>\<open>reachable\<close> is a \<^verbatim>\<open>map[pgid]*page\<close>, \<^verbatim>\<open>freed\<close> a \<^verbatim>\<open>map[pgid]bool\<close>, \<^verbatim>\<open>ch\<close> the
  errors sent so far, oldest first.
\<close>

record chk =
  reachable :: "pgid \<rightharpoonup> page"
  freed :: "pgid \<rightharpoonup> bool"
  ch :: "finding list"

definition send :: "finding \<Rightarrow> chk \<Rightarrow> chk" where
  "send f s = s\<lparr>ch := ch s @ [f]\<rparr>"

text \<open>Reading \<^verbatim>\<open>freed[id]\<close>: a missing key reads as \<^verbatim>\<open>false\<close>.\<close>

definition freed_at :: "chk \<Rightarrow> pgid \<Rightarrow> bool" where
  "freed_at s i = (case freed s i of None \<Rightarrow> False | Some b \<Rightarrow> b)"

text \<open>The state \<^verbatim>\<open>tx.check\<close> starts from: both maps empty, nothing sent.\<close>

definition start :: chk where
  "start = \<lparr>reachable = Map.empty, freed = Map.empty, ch = []\<rparr>"

subsection \<open>Key comparison\<close>

text \<open>
  Modelled from the spec: \<^verbatim>\<open>compareKeys\<close> is declared outside \<^verbatim>\<open>tx_check.go\<close>; the spec
  says key comparison is byte-lexicographic over the raw key bytes. The result is negative,
  zero or positive; a \<^verbatim>\<open>nil\<close> slice compares as the empty one.
\<close>

fun compareBytes :: "byte list \<Rightarrow> byte list \<Rightarrow> int" where
  "compareBytes [] [] = 0"
| "compareBytes [] (y # ys) = - 1"
| "compareBytes (x # xs) [] = 1"
| "compareBytes (x # xs) (y # ys) =
     (if x < y then - 1 else if y < x then 1 else compareBytes xs ys)"

definition bytes_of :: "slice \<Rightarrow> byte list" where
  "bytes_of k = (case k of None \<Rightarrow> [] | Some bs \<Rightarrow> bs)"

definition compareKeys :: "slice \<Rightarrow> slice \<Rightarrow> int" where
  "compareKeys l r = compareBytes (bytes_of l) (bytes_of r)"

subsection \<open>tx.check, lines 26 to 35: the free-list scan\<close>

fun scanFreed :: "pgid list \<Rightarrow> chk \<Rightarrow> chk" where
  "scanFreed [] s = s"
| "scanFreed (i # rest) s =
     scanFreed rest
       ((if freed_at s i then send (DoubleFreed i) s else s)\<lparr>freed := (freed s)(i \<mapsto> True)\<rparr>)"

subsection \<open>tx.check, lines 37 to 45: seeding the reachable map\<close>

text \<open>
  The loop counter is a \<^verbatim>\<open>uint32\<close> compared with \<^verbatim>\<open>i <= overflow\<close>: when \<open>overflow\<close> is
  the greatest \<^verbatim>\<open>uint32\<close> the counter wraps and the loop never ends. The first argument
  bounds the number of iterations; \<open>None\<close> says the bound was reached.
\<close>

fun seedFreelist :: "nat \<Rightarrow> tx \<Rightarrow> 32 word \<Rightarrow> chk \<Rightarrow> chk option" where
  "seedFreelist 0 t i s = None"
| "seedFreelist (Suc n) t i s =
     (if i \<le> overflow (page_of t (meta_freelist t))
      then seedFreelist n t (i + 1)
             (s\<lparr>reachable := (reachable s)(meta_freelist t + ucast i \<mapsto> page_of t (meta_freelist t))\<rparr>)
      else Some s)"

definition seedReachable :: "nat \<Rightarrow> decls \<Rightarrow> tx \<Rightarrow> chk \<Rightarrow> chk option" where
  "seedReachable n D t s =
     (let s1 = s\<lparr>reachable := Map.empty\<rparr>;
          s2 = s1\<lparr>reachable := (reachable s1)(0 \<mapsto> page_of t 0)\<rparr>;
          s3 = s2\<lparr>reachable := (reachable s2)(1 \<mapsto> page_of t 1)\<rparr>
      in if meta_freelist t \<noteq> pgidNoFreelist D then seedFreelist n t 0 s3 else Some s3)"

subsection \<open>checkBucket, lines 70 to 90: the visit of one page\<close>

text \<open>Lines 76 to 82. The counter is a \<^verbatim>\<open>pgid\<close> and \<open>overflow\<close> a \<^verbatim>\<open>uint32\<close>, so the loop ends.\<close>

function claimSpan :: "page \<Rightarrow> pgid \<Rightarrow> chk \<Rightarrow> chk" where
  "claimSpan p i s =
     (if i \<le> ucast (overflow p)
      then claimSpan p (i + 1)
             (let ident = id_p p + i;
                  s1 = (if reachable s ident \<noteq> None
                        then send (MultipleReferences (sint ident)) s else s)
              in s1\<lparr>reachable := (reachable s1)(ident \<mapsto> p)\<rparr>)
      else s)"
  by pat_completeness auto
termination
proof (relation "measure (\<lambda>(p, i, s). Suc (unat (overflow p)) - unat i)")
  show "wf (measure (\<lambda>(p, i, s). Suc (unat (overflow p)) - unat i))"
    by simp
next
  fix p :: page and i :: pgid and s :: chk
  assume a: "i \<le> ucast (overflow p)"
  have "unat (ucast (overflow p) :: pgid) = unat (overflow p)"
    by (simp add: unsigned_ucast_eq take_bit_nat_eq_self
          order_less_le_trans [OF unsigned_less])
  with a have le: "unat i \<le> unat (overflow p)"
    by (simp add: word_le_nat_alt)
  have "unat (overflow p) < 2 ^ 32"
    using unsigned_less [of "overflow p"] by simp
  with le have "Suc (unat i) < 2 ^ 64"
    by simp
  then have "unat (i + 1) = Suc (unat i)"
    by (simp add: unat_word_ariths)
  with le show "((p, i + 1, let ident = id_p p + i;
                      s1 = (if reachable s ident \<noteq> None
                            then send (MultipleReferences (sint ident)) s else s)
                  in s1\<lparr>reachable := (reachable s1)(ident \<mapsto> p)\<rparr>), p, i, s)
          \<in> measure (\<lambda>(p, i, s). Suc (unat (overflow p)) - unat i)"
    by simp
qed

declare claimSpan.simps [simp del]

definition visitPage :: "decls \<Rightarrow> tx \<Rightarrow> page \<Rightarrow> int \<Rightarrow> chk \<Rightarrow> chk" where
  "visitPage D t p depth s =
     (let s1 = (if id_p p > meta_pgid t
                then send (OutOfBounds (sint (id_p p)) (sint (meta_pgid t))) s else s);
          s2 = claimSpan p 0 s1
      in if freed_at s2 (id_p p) then send (ReachableFreed (sint (id_p p))) s2
         else if flags p AND branchPageFlag D = 0 \<and> flags p AND leafPageFlag D = 0
         then send (InvalidPageType (sint (id_p p)) (flags p)) s2
         else s2)"

text \<open>
  The span of page \<open>p\<close> as a test on an id \<open>x\<close>: \<open>x\<close> is one of \<open>id\<close>, \<open>id + 1\<close>, up to
  \<open>id + overflow\<close>, the sums taken as \<^verbatim>\<open>p.id + i\<close> takes them (modulo \<open>2 ^ 64\<close>).
\<close>

definition inSpan :: "page \<Rightarrow> pgid \<Rightarrow> bool" where
  "inSpan p x \<longleftrightarrow> x - id_p p \<le> ucast (overflow p)"

text \<open>What the visit of a page sends when it starts in state \<open>s\<close>.\<close>

definition visitFindings :: "decls \<Rightarrow> tx \<Rightarrow> page \<Rightarrow> int \<Rightarrow> chk \<Rightarrow> finding list" where
  "visitFindings D t p depth s = drop (length (ch s)) (ch (visitPage D t p depth s))"

subsection \<open>forEachPage\<close>

text \<open>
  Modelled from the spec: \<^verbatim>\<open>forEachPage\<close> is declared outside \<^verbatim>\<open>tx_check.go\<close>; the spec
  describes a pre-order, depth-first traversal of the page tree that visits a page and then,
  for a branch page, the children of its elements in order (leaf pages are terminal). The
  first argument bounds the depth of the recursion.
\<close>

fun forEachPage ::
    "nat \<Rightarrow> decls \<Rightarrow> tx \<Rightarrow> pgid \<Rightarrow> int \<Rightarrow> (page \<Rightarrow> int \<Rightarrow> chk \<Rightarrow> chk) \<Rightarrow> chk \<Rightarrow> chk option"
  and forEachChild ::
    "nat \<Rightarrow> decls \<Rightarrow> tx \<Rightarrow> branchPageElement list \<Rightarrow> int \<Rightarrow> (page \<Rightarrow> int \<Rightarrow> chk \<Rightarrow> chk) \<Rightarrow> chk
      \<Rightarrow> chk option" where
  "forEachPage 0 D t pg depth fn s = None"
| "forEachPage (Suc n) D t pg depth fn s =
     (let p = page_of t pg; s1 = fn p depth s
      in if flags p AND branchPageFlag D \<noteq> 0
         then forEachChild n D t (branchPageElements p) (depth + 1) fn s1
         else Some s1)"
| "forEachChild n D t [] depth fn s = Some s"
| "forEachChild n D t (e # es) depth fn s =
     (case forEachPage n D t (bpgid e) depth fn s of
        None \<Rightarrow> None
      | Some s1 \<Rightarrow> forEachChild n D t es depth fn s1)"

subsection \<open>recursivelyCheckPagesInternal, lines 112 to 174\<close>

text \<open>
  The loop over a leaf page, lines 145 to 166, from element index \<open>i\<close> on: \<open>es\<close> are the
  elements not yet read and \<open>runningMin\<close> the variable of that name.
\<close>

fun leafLoop ::
    "pgid \<Rightarrow> slice \<Rightarrow> pgid list \<Rightarrow> (slice \<Rightarrow> string) \<Rightarrow> nat \<Rightarrow> leafPageElement list \<Rightarrow> slice
      \<Rightarrow> chk \<Rightarrow> chk" where
  "leafLoop pg maxKeyOpen pagesStack keyToString i [] runningMin s = s"
| "leafLoop pg maxKeyOpen pagesStack keyToString i (elem # es) runningMin s =
     (let k = Some (lkey elem);
          s1 = (if i = 0 \<and> runningMin \<noteq> None \<and> compareKeys runningMin k > 0
                then send (LeafBelowAncestorMin i (keyToString k) pg pagesStack) s else s);
          s2 = (if i > 0 \<and> compareKeys runningMin k > 0
                then send (LeafOutOfOrder i (keyToString k) pg (keyToString runningMin) pagesStack) s1
                else s1);
          s3 = (if i > 0 \<and> compareKeys runningMin k = 0
                then send (LeafDuplicateKey i (keyToString k) pg (keyToString runningMin) pagesStack) s2
                else s2);
          s4 = (if maxKeyOpen \<noteq> None \<and> compareKeys k maxKeyOpen \<ge> 0
                then send (LeafAboveAncestorMax i (keyToString k) pg (keyToString maxKeyOpen) pagesStack) s3
                else s3)
      in leafLoop pg maxKeyOpen pagesStack keyToString (i + 1) es k s4)"

text \<open>
  The function and the loop over a branch page, lines 121 to 143. The first argument bounds
  the depth of the recursion: the source recurses on page ids with no bound of its own.
  \<open>branchLoop\<close> runs from element index \<open>i\<close> on; \<open>es\<close> are the elements not yet read, so
  \<^verbatim>\<open>i < len(p.branchPageElements())-1\<close> holds when an element follows \<open>elem\<close>, and that
  element is number \<open>i + 1\<close>. \<open>runningMin\<close> and \<open>maxKeyInSubtree\<close> are the variables of those
  names.
\<close>

fun recursivelyCheckPagesInternal ::
    "nat \<Rightarrow> decls \<Rightarrow> tx \<Rightarrow> pgid \<Rightarrow> slice \<Rightarrow> slice \<Rightarrow> pgid list \<Rightarrow> (slice \<Rightarrow> string) \<Rightarrow> chk
      \<Rightarrow> (slice \<times> chk) option"
  and branchLoop ::
    "nat \<Rightarrow> decls \<Rightarrow> tx \<Rightarrow> pgid \<Rightarrow> slice \<Rightarrow> pgid list \<Rightarrow> (slice \<Rightarrow> string) \<Rightarrow> nat
      \<Rightarrow> branchPageElement list \<Rightarrow> slice \<Rightarrow> slice \<Rightarrow> chk \<Rightarrow> (slice \<times> chk) option" where
  "recursivelyCheckPagesInternal 0 D t pg minKeyClosed maxKeyOpen pagesStack keyToString s = None"
| "recursivelyCheckPagesInternal (Suc n) D t pg minKeyClosed maxKeyOpen pagesStack keyToString s =
     (let p = page_of t pg; pagesStack1 = pagesStack @ [pg]
      in if flags p AND branchPageFlag D \<noteq> 0
         then branchLoop n D t pg maxKeyOpen pagesStack1 keyToString 0 (branchPageElements p)
                minKeyClosed None s
         else if flags p AND leafPageFlag D \<noteq> 0
         then (let s1 = leafLoop pg maxKeyOpen pagesStack1 keyToString 0 (leafPageElements p)
                          minKeyClosed s
               in if leafPageElements p \<noteq> []
                  then Some (Some (lkey (last (leafPageElements p))), s1)
                  else Some (None, s1))
         else Some (None, send (UnexpectedPageType pg) s))"
| "branchLoop n D t pg maxKeyOpen pagesStack keyToString i [] runningMin maxKeyInSubtree s =
     Some (maxKeyInSubtree, s)"
| "branchLoop n D t pg maxKeyOpen pagesStack keyToString i (elem # es) runningMin maxKeyInSubtree s =
     (let k = Some (bkey elem);
          s1 = (if i = 0 \<and> runningMin \<noteq> None \<and> compareKeys runningMin k > 0
                then send (BranchBelowAncestorMin i (keyToString k) pg pagesStack) s else s);
          s2 = (if maxKeyOpen \<noteq> None \<and> compareKeys k maxKeyOpen \<ge> 0
                then send (BranchAboveAncestorMax i (keyToString k) pg (keyToString maxKeyOpen)
                             pagesStack) s1
                else s1);
          maxKey = (case es of [] \<Rightarrow> maxKeyOpen | nxt # _ \<Rightarrow> Some (bkey nxt))
      in case recursivelyCheckPagesInternal n D t (bpgid elem) k maxKey pagesStack keyToString s2 of
           None \<Rightarrow> None
         | Some (m, s3) \<Rightarrow> branchLoop n D t pg maxKeyOpen pagesStack keyToString (i + 1) es m m s3)"

definition recursivelyCheckPages ::
    "nat \<Rightarrow> decls \<Rightarrow> tx \<Rightarrow> pgid \<Rightarrow> (slice \<Rightarrow> string) \<Rightarrow> chk \<Rightarrow> (slice \<times> chk) option" where
  "recursivelyCheckPages n D t pg keyToString s =
     recursivelyCheckPagesInternal n D t pg None None [] keyToString s"

subsection \<open>checkBucket, lines 62 to 101\<close>

text \<open>
  \<open>checkEntries\<close> is the callback of \<^verbatim>\<open>b.ForEach\<close>, lines 95 to 100, run over the entries of
  the bucket in order.
\<close>

fun checkBucket :: "nat \<Rightarrow> decls \<Rightarrow> tx \<Rightarrow> bucket \<Rightarrow> KeyValueStringer \<Rightarrow> chk \<Rightarrow> chk option"
  and checkEntries ::
    "nat \<Rightarrow> decls \<Rightarrow> tx \<Rightarrow> (byte list \<times> bucket option) list \<Rightarrow> KeyValueStringer \<Rightarrow> chk \<Rightarrow> chk option"
  where
  "checkBucket n D t (Bucket r es) keyValueStringer s =
     (if r = 0 then Some s
      else case forEachPage n D t r 0 (visitPage D t) s of
             None \<Rightarrow> None
           | Some s1 \<Rightarrow>
               (case recursivelyCheckPages n D t r (KeyToString keyValueStringer) s1 of
                  None \<Rightarrow> None
                | Some (m, s2) \<Rightarrow> checkEntries n D t es keyValueStringer s2))"
| "checkEntries n D t [] keyValueStringer s = Some s"
| "checkEntries n D t ((k, None) # es) keyValueStringer s =
     checkEntries n D t es keyValueStringer s"
| "checkEntries n D t ((k, Some child) # es) keyValueStringer s =
     (case checkBucket n D t child keyValueStringer s of
        None \<Rightarrow> None
      | Some s1 \<Rightarrow> checkEntries n D t es keyValueStringer s1)"

subsection \<open>tx.check, lines 50 to 56: the final sweep\<close>

function sweep :: "tx \<Rightarrow> pgid \<Rightarrow> chk \<Rightarrow> chk" where
  "sweep t i s =
     (if i < meta_pgid t
      then sweep t (i + 1)
             (if reachable s i = None \<and> \<not> freed_at s i
              then send (UnreachableUnfreed (sint i)) s else s)
      else s)"
  by pat_completeness auto
termination
proof (relation "measure (\<lambda>(t, i, s). unat (meta_pgid t) - unat i)")
  show "wf (measure (\<lambda>(t, i, s). unat (meta_pgid t) - unat i))"
    by simp
next
  fix t :: tx and i :: pgid and s :: chk
  assume a: "i < meta_pgid t"
  then have lt: "unat i < unat (meta_pgid t)"
    by (simp add: word_less_nat_alt)
  have "unat (meta_pgid t) < 2 ^ 64"
    using unsigned_less [of "meta_pgid t"] by simp
  with lt have "Suc (unat i) < 2 ^ 64"
    by linarith
  then have "unat (i + 1) = Suc (unat i)"
    by (simp add: unat_word_ariths)
  with lt show "((t, i + 1, if reachable s i = None \<and> \<not> freed_at s i
                  then send (UnreachableUnfreed (sint i)) s else s), t, i, s)
          \<in> measure (\<lambda>(t, i, s). unat (meta_pgid t) - unat i)"
    by simp
qed

declare sweep.simps [simp del]

text \<open>What the sweep sends when it starts in state \<open>s\<close>.\<close>

definition sweepFindings :: "tx \<Rightarrow> chk \<Rightarrow> finding list" where
  "sweepFindings t s = drop (length (ch s)) (ch (sweep t 0 s))"

subsection \<open>tx.check, lines 22 to 60\<close>

text \<open>
  \<^verbatim>\<open>tx.db.loadFreelist()\<close> only makes the free list readable; \<^verbatim>\<open>close(ch)\<close> is the return
  of a result. \<open>None\<close> says the bound \<open>n\<close> was reached by one of the unbounded parts.
\<close>

definition check :: "nat \<Rightarrow> decls \<Rightarrow> tx \<Rightarrow> KeyValueStringer \<Rightarrow> chk option" where
  "check n D t keyValueStringer =
     (let s0 = scanFreed (freelist_all t) start
      in case seedReachable n D t s0 of
           None \<Rightarrow> None
         | Some s1 \<Rightarrow>
             (case checkBucket n D t (root_bucket t) keyValueStringer s1 of
                None \<Rightarrow> None
              | Some s2 \<Rightarrow> Some (sweep t 0 s2)))"

subsection \<open>HexKeyValueStringer, lines 184 to 197\<close>

text \<open>
  \<^verbatim>\<open>hex.EncodeToString\<close> of the standard library writes each byte as two lower-case
  hexadecimal digits, the high one first.
\<close>

definition hexDigit :: "nat \<Rightarrow> char" where
  "hexDigit d = ''0123456789abcdef'' ! d"

definition EncodeToString :: "slice \<Rightarrow> string" where
  "EncodeToString k =
     concat (map (\<lambda>b. [hexDigit (unat b div 16), hexDigit (unat b mod 16)]) (bytes_of k))"

definition HexKeyValueStringer :: KeyValueStringer where
  "HexKeyValueStringer = \<lparr>KeyToString = EncodeToString, ValueToString = EncodeToString\<rparr>"

section \<open>Notions the properties are stated with\<close>

subsection \<open>One iteration of the loop over a span\<close>

text \<open>The state after one iteration of the loop of lines 76 to 82.\<close>

definition claimOne :: "page \<Rightarrow> pgid \<Rightarrow> chk \<Rightarrow> chk" where
  "claimOne p i s =
     (let ident = id_p p + i;
          s1 = (if reachable s ident \<noteq> None
                then send (MultipleReferences (sint ident)) s else s)
      in s1\<lparr>reachable := (reachable s1)(ident \<mapsto> p)\<rparr>)"

subsection \<open>Parts of the branch loop\<close>

text \<open>
  The two tests the branch loop makes on element \<open>i\<close> (lines 124 to 132) and the upper bound
  it passes to the child of that element (lines 134 to 139), named so that the proofs can
  speak of them.
\<close>

definition branchChecks ::
    "pgid \<Rightarrow> slice \<Rightarrow> pgid list \<Rightarrow> (slice \<Rightarrow> string) \<Rightarrow> nat \<Rightarrow> branchPageElement \<Rightarrow> slice
      \<Rightarrow> chk \<Rightarrow> chk" where
  "branchChecks pg maxKeyOpen pagesStack keyToString i elem runningMin s =
     (let k = Some (bkey elem);
          s1 = (if i = 0 \<and> runningMin \<noteq> None \<and> compareKeys runningMin k > 0
                then send (BranchBelowAncestorMin i (keyToString k) pg pagesStack) s else s);
          s2 = (if maxKeyOpen \<noteq> None \<and> compareKeys k maxKeyOpen \<ge> 0
                then send (BranchAboveAncestorMax i (keyToString k) pg (keyToString maxKeyOpen)
                             pagesStack) s1
                else s1)
      in s2)"

definition childMaxKey :: "slice \<Rightarrow> branchPageElement list \<Rightarrow> slice" where
  "childMaxKey maxKeyOpen es = (case es of [] \<Rightarrow> maxKeyOpen | nxt # _ \<Rightarrow> Some (bkey nxt))"

subsection \<open>What a finding detects\<close>

text \<open>
  A finding with the strings the stringer produced blanked: the \<^verbatim>\<open>fmt.Errorf\<close> call it comes
  from, the element index, the page ids and the stack remain.
\<close>

fun detection :: "finding \<Rightarrow> finding" where
  "detection (BranchBelowAncestorMin i k pg st) = BranchBelowAncestorMin i [] pg st"
| "detection (BranchAboveAncestorMax i k pg m st) = BranchAboveAncestorMax i [] pg [] st"
| "detection (LeafBelowAncestorMin i k pg st) = LeafBelowAncestorMin i [] pg st"
| "detection (LeafOutOfOrder i k pg m st) = LeafOutOfOrder i [] pg [] st"
| "detection (LeafDuplicateKey i k pg m st) = LeafDuplicateKey i [] pg [] st"
| "detection (LeafAboveAncestorMax i k pg m st) = LeafAboveAncestorMax i [] pg [] st"
| "detection f = f"

definition detections :: "chk \<Rightarrow> chk" where
  "detections s = s\<lparr>ch := map detection (ch s)\<rparr>"

text \<open>A stringer that returns the empty string for every key and value.\<close>

definition blankStringer :: KeyValueStringer where
  "blankStringer = \<lparr>KeyToString = (\<lambda>k. []), ValueToString = (\<lambda>v. [])\<rparr>"

subsection \<open>The page graph\<close>

text \<open>
  The pages \<^verbatim>\<open>recursivelyCheckPagesInternal\<close> recurses into from page \<open>pg\<close>, in order, and the
  graph they form: \<open>(c, pg)\<close> is an edge when \<open>c\<close> is one of them. A starting page is
  tree-shaped when the edges among the pages that can be reached from it have no cycle
  (there are finitely many page ids).
\<close>

definition children :: "decls \<Rightarrow> tx \<Rightarrow> pgid \<Rightarrow> pgid list" where
  "children D t pg =
     (if flags (page_of t pg) AND branchPageFlag D \<noteq> 0
      then map bpgid (branchPageElements (page_of t pg)) else [])"

definition childRel :: "decls \<Rightarrow> tx \<Rightarrow> (pgid \<times> pgid) set" where
  "childRel D t = {(c, pg). c \<in> set (children D t pg)}"

definition descendants :: "decls \<Rightarrow> tx \<Rightarrow> pgid \<Rightarrow> pgid set" where
  "descendants D t pg = {q. (q, pg) \<in> (childRel D t)\<^sup>*}"

definition treeShaped :: "decls \<Rightarrow> tx \<Rightarrow> pgid \<Rightarrow> bool" where
  "treeShaped D t pg \<longleftrightarrow>
     acyclic (childRel D t \<inter> descendants D t pg \<times> descendants D t pg)"

text \<open>
  The keys stored in the subtree of page \<open>pg\<close>: the keys of the leaf elements, in the order of
  the traversal. The first argument bounds the depth, as above.
\<close>

fun subtreeKeys :: "nat \<Rightarrow> decls \<Rightarrow> tx \<Rightarrow> pgid \<Rightarrow> byte list list option"
  and childrenKeys :: "nat \<Rightarrow> decls \<Rightarrow> tx \<Rightarrow> branchPageElement list \<Rightarrow> byte list list option" where
  "subtreeKeys 0 D t pg = None"
| "subtreeKeys (Suc n) D t pg =
     (let p = page_of t pg
      in if flags p AND branchPageFlag D \<noteq> 0 then childrenKeys n D t (branchPageElements p)
         else if flags p AND leafPageFlag D \<noteq> 0 then Some (map lkey (leafPageElements p))
         else Some [])"
| "childrenKeys n D t [] = Some []"
| "childrenKeys n D t (e # es) =
     (case subtreeKeys n D t (bpgid e) of
        None \<Rightarrow> None
      | Some ks \<Rightarrow> (case childrenKeys n D t es of None \<Rightarrow> None | Some ks1 \<Rightarrow> Some (ks @ ks1)))"

text \<open>
  The keys of the rightmost leaf of the subtree of page \<open>pg\<close>: the page reached from \<open>pg\<close> by
  going to the child of the last element of each branch page. A branch page with no element
  and a page that is neither a branch nor a leaf page hold no key. The first argument bounds
  the depth, as above.
\<close>

fun rightmostLeaf :: "nat \<Rightarrow> decls \<Rightarrow> tx \<Rightarrow> pgid \<Rightarrow> byte list list option" where
  "rightmostLeaf 0 D t pg = None"
| "rightmostLeaf (Suc n) D t pg =
     (let p = page_of t pg
      in if flags p AND branchPageFlag D \<noteq> 0
         then (if branchPageElements p = [] then Some []
               else rightmostLeaf n D t (bpgid (last (branchPageElements p))))
         else if flags p AND leafPageFlag D \<noteq> 0 then Some (map lkey (leafPageElements p))
         else Some [])"

text \<open>The order the keys of a well-formed tree are in: each key at most the next.\<close>

definition ascending :: "byte list list \<Rightarrow> bool" where
  "ascending ks = sorted_wrt (\<lambda>a b. compareKeys (Some a) (Some b) \<le> 0) ks"

subsection \<open>Returning within a depth\<close>

text \<open>
  With depth bound \<open>n\<close> the validation of page \<open>pg\<close> returns, whatever the inherited bounds,
  the stack, the stringer and the state are.
\<close>

definition returns :: "nat \<Rightarrow> decls \<Rightarrow> tx \<Rightarrow> pgid \<Rightarrow> bool" where
  "returns n D t pg \<longleftrightarrow>
     (\<forall>minKeyClosed maxKeyOpen pagesStack keyToString s.
        recursivelyCheckPagesInternal n D t pg minKeyClosed maxKeyOpen pagesStack keyToString s
          \<noteq> None)"

section \<open>Concrete inputs\<close>

text \<open>
  The values bbolt gives the three constants, and small transactions used to run the
  definitions: pages are named by the id under which \<^verbatim>\<open>tx.page\<close> returns them.
\<close>

definition decls0 :: decls where
  "decls0 = \<lparr>branchPageFlag = 0x01, leafPageFlag = 0x02, pgidNoFreelist = 0xffffffffffffffff\<rparr>"

definition leafPage :: "pgid \<Rightarrow> byte list list \<Rightarrow> page" where
  "leafPage i ks =
     \<lparr>id_p = i, flags = 0x02, overflow = 0, branchPageElements = [],
      leafPageElements = map (\<lambda>k. \<lparr>lkey = k, lvalue = []\<rparr>) ks\<rparr>"

definition branchPage :: "pgid \<Rightarrow> (byte list \<times> pgid) list \<Rightarrow> page" where
  "branchPage i es =
     \<lparr>id_p = i, flags = 0x01, overflow = 0,
      branchPageElements = map (\<lambda>(k, c). \<lparr>bkey = k, bpgid = c\<rparr>) es, leafPageElements = []\<rparr>"

definition pageA :: page where
  "pageA = leafPage 5 [[0x61]]"

definition pageB :: page where
  "pageB = leafPage 5 [[0x62]]"

text \<open>Every page is an empty leaf whose header holds its own id; the high-water mark is 10.\<close>

definition txLeaf :: tx where
  "txLeaf = \<lparr>page_of = (\<lambda>i. leafPage i []), meta_pgid = 10, meta_freelist = 0xffffffffffffffff,
     root_bucket = Bucket 0 [], freelist_all = []\<rparr>"

text \<open>
  The free list is persisted on page 1 with one overflow page, so its span is pages 1 and 2
  and overlaps the second meta page.
\<close>

definition txSeed :: tx where
  "txSeed = \<lparr>page_of = (\<lambda>i. if i = 1
       then \<lparr>id_p = 1, flags = 0x10, overflow = 1, branchPageElements = [], leafPageElements = []\<rparr>
       else leafPage i []),
     meta_pgid = 3, meta_freelist = 1, root_bucket = Bucket 0 [], freelist_all = []\<rparr>"

text \<open>The free list is persisted on page 2, whose header holds the greatest \<open>overflow\<close>.\<close>

definition txSeedMax :: tx where
  "txSeedMax = \<lparr>page_of = (\<lambda>i. if i = 2
       then \<lparr>id_p = 2, flags = 0x10, overflow = 0xffffffff, branchPageElements = [],
             leafPageElements = []\<rparr>
       else leafPage i []),
     meta_pgid = 3, meta_freelist = 2, root_bucket = Bucket 0 [], freelist_all = []\<rparr>"

text \<open>Two meta pages, no persisted free list, an inline root bucket.\<close>

definition txEmpty :: tx where
  "txEmpty = \<lparr>page_of = (\<lambda>i. leafPage i []), meta_pgid = 2, meta_freelist = 0xffffffffffffffff,
     root_bucket = Bucket 0 [], freelist_all = []\<rparr>"

text \<open>Page 2 is a leaf with the keys \<^verbatim>\<open>"b"\<close> and \<^verbatim>\<open>"a"\<close>, in this order.\<close>

definition txUnsorted :: tx where
  "txUnsorted = \<lparr>page_of = (\<lambda>i. if i = 2 then leafPage 2 [[0x62], [0x61]] else leafPage i []),
     meta_pgid = 3, meta_freelist = 0xffffffffffffffff, root_bucket = Bucket 2 [],
     freelist_all = []\<rparr>"

text \<open>Page 2 is a branch page whose only element points to the leaf page 3.\<close>

definition txTwo :: tx where
  "txTwo = \<lparr>page_of = (\<lambda>i. if i = 2 then branchPage 2 [([0x61], 3)] else leafPage i [[0x61]]),
     meta_pgid = 4, meta_freelist = 0xffffffffffffffff, root_bucket = Bucket 2 [],
     freelist_all = []\<rparr>"

text \<open>Page 2 is a branch page whose only element points to page 2 itself.\<close>

definition txLoop :: tx where
  "txLoop = \<lparr>page_of = (\<lambda>i. if i = 2 then branchPage 2 [([0x61], 2)] else leafPage i []),
     meta_pgid = 3, meta_freelist = 0xffffffffffffffff, root_bucket = Bucket 2 [],
     freelist_all = []\<rparr>"

text \<open>
  The root page 2 is a branch page with the separators \<^verbatim>\<open>"a"\<close> and \<^verbatim>\<open>"b"\<close>. Under \<^verbatim>\<open>"a"\<close> is
  the leaf page 3 with the key \<^verbatim>\<open>"a"\<close>. Under \<^verbatim>\<open>"b"\<close> is the branch page 4 with the separators
  \<^verbatim>\<open>"b"\<close>, over the empty leaf page 5, and \<^verbatim>\<open>"0"\<close>, over the leaf page 6 with the key \<^verbatim>\<open>"0"\<close>.
\<close>

definition txGap :: tx where
  "txGap = \<lparr>page_of = (\<lambda>i.
       if i = 2 then branchPage 2 [([0x61], 3), ([0x62], 4)]
       else if i = 3 then leafPage 3 [[0x61]]
       else if i = 4 then branchPage 4 [([0x62], 5), ([0x30], 6)]
       else if i = 6 then leafPage 6 [[0x30]]
       else leafPage i []),
     meta_pgid = 7, meta_freelist = 0xffffffffffffffff, root_bucket = Bucket 2 [],
     freelist_all = []\<rparr>"

text \<open>
  The root page 2 is a branch page with the separators \<^verbatim>\<open>"a"\<close>, over the leaf page 3 with the
  key \<^verbatim>\<open>"a"\<close>, and \<^verbatim>\<open>"b"\<close>, over the empty leaf page 4.
\<close>

definition txTrailing :: tx where
  "txTrailing = \<lparr>page_of = (\<lambda>i.
       if i = 2 then branchPage 2 [([0x61], 3), ([0x62], 4)]
       else if i = 3 then leafPage 3 [[0x61]]
       else leafPage i []),
     meta_pgid = 5, meta_freelist = 0xffffffffffffffff, root_bucket = Bucket 2 [],
     freelist_all = []\<rparr>"

text \<open>
  The root page 2 is a branch page with the separators \<^verbatim>\<open>"a"\<close>, over the leaf page 3 with the
  keys \<^verbatim>\<open>"a"\<close> and \<^verbatim>\<open>"b"\<close>, and \<^verbatim>\<open>"c"\<close>, over the leaf page 4 with the keys \<^verbatim>\<open>"c"\<close> and
  \<^verbatim>\<open>"d"\<close>.
\<close>

definition txSorted :: tx where
  "txSorted = \<lparr>page_of = (\<lambda>i.
       if i = 2 then branchPage 2 [([0x61], 3), ([0x63], 4)]
       else if i = 3 then leafPage 3 [[0x61], [0x62]]
       else if i = 4 then leafPage 4 [[0x63], [0x64]]
       else leafPage i []),
     meta_pgid = 5, meta_freelist = 0xffffffffffffffff, root_bucket = Bucket 2 [],
     freelist_all = []\<rparr>"

section \<open>Properties\<close>

subsection \<open>Sending and reading the state\<close>

lemma send_simps:
  "ch (send f s) = ch s @ [f]" "reachable (send f s) = reachable s" "freed (send f s) = freed s"
  by (simp_all add: send_def)

lemma freed_at_send: "freed_at (send f s) = freed_at s"
  by (rule ext) (simp add: freed_at_def send_simps)

lemma sint_pgid_eq: "sint (i :: pgid) = sint j \<longleftrightarrow> i = j"
  by (auto intro: signed_word_eqI)

lemma pgid_succ:
  fixes i p :: pgid
  assumes "i < p"
  shows "unat (i + 1) = Suc (unat i)"
proof -
  have "unat i < unat p"
    using assms by (simp add: word_less_nat_alt)
  moreover have "unat p < 2 ^ 64"
    using unsigned_less [of p] by simp
  ultimately have "Suc (unat i) < 2 ^ 64"
    by linarith
  then show ?thesis
    by (simp add: unat_word_ariths)
qed

lemma pgid_succ_le:
  fixes i j p :: pgid
  assumes "i < p"
  shows "i + 1 \<le> j \<longleftrightarrow> i \<le> j \<and> i \<noteq> j"
proof -
  have "i \<noteq> j \<longleftrightarrow> unat i \<noteq> unat j"
    by (auto dest: unsigned_word_eqI)
  then show ?thesis
    using pgid_succ [OF assms] by (auto simp: word_le_nat_alt)
qed

lemma pgid_le_overflow:
  fixes i :: pgid and v :: "32 word"
  assumes "i \<le> ucast v"
  shows "i < 2 ^ 32"
proof -
  have "unat (ucast v :: pgid) = unat v"
    by (simp add: unsigned_ucast_eq take_bit_nat_eq_self
          order_less_le_trans [OF unsigned_less])
  moreover have "unat v < 2 ^ 32"
    using unsigned_less [of v] by simp
  ultimately have "unat i < 2 ^ 32"
    using assms by (simp add: word_le_nat_alt)
  then show ?thesis
    by (simp add: word_less_nat_alt)
qed


subsection \<open>The free-list scan\<close>

lemma scanFreed_reachable: "reachable (scanFreed xs s) = reachable s"
  by (induction xs arbitrary: s) (simp_all add: send_simps)

lemma scanFreed_freed_at: "freed_at (scanFreed xs s) x \<longleftrightarrow> freed_at s x \<or> x \<in> set xs"
  by (induction xs arbitrary: s) (auto simp: send_simps freed_at_def)

lemma scanFreed_dom: "dom (freed (scanFreed xs s)) = dom (freed s) \<union> set xs"
  by (induction xs arbitrary: s) (auto simp: send_simps)

lemma scanFreed_count:
  "count_list (ch (scanFreed xs s)) (DoubleFreed x) =
     count_list (ch s) (DoubleFreed x) +
       (if freed_at s x then count_list xs x else count_list xs x - 1)"
proof (induction xs arbitrary: s)
  case Nil
  show ?case by simp
next
  case (Cons i rest)
  let ?s1 = "(if freed_at s i then send (DoubleFreed i) s else s)\<lparr>freed := (freed s)(i \<mapsto> True)\<rparr>"
  have f: "freed_at ?s1 x \<longleftrightarrow> freed_at s x \<or> x = i"
    by (auto simp: freed_at_def send_simps)
  have c: "count_list (ch ?s1) (DoubleFreed x) =
            count_list (ch s) (DoubleFreed x) + (if freed_at s i \<and> i = x then 1 else 0)"
    by (auto simp: send_simps)
  show ?case
    unfolding scanFreed.simps Cons.IH [of ?s1] f c
    by auto
qed

lemma scanFreed_only: "set (ch (scanFreed xs s)) \<subseteq> set (ch s) \<union> range DoubleFreed"
proof (induction xs arbitrary: s)
  case Nil
  show ?case by simp
next
  case (Cons i rest)
  let ?s1 = "(if freed_at s i then send (DoubleFreed i) s else s)\<lparr>freed := (freed s)(i \<mapsto> True)\<rparr>"
  have "set (ch ?s1) \<subseteq> set (ch s) \<union> range DoubleFreed"
    by (auto simp: send_simps)
  with Cons.IH [of ?s1] show ?case
    unfolding scanFreed.simps by blast
qed

text \<open>
  Claim C5. The scan of \<^verbatim>\<open>tx.check\<close> starts with nothing freed and nothing sent. For every
  page id \<open>x\<close> it sends \<open>DoubleFreed x\<close> once for each occurrence of \<open>x\<close> in the copied id
  list after the first: \<open>k - 1\<close> times when \<open>x\<close> occurs \<open>k > 1\<close> times, never when it occurs at
  most once (the subtraction on \<open>nat\<close> stops at \<open>0\<close>). It sends nothing else, and the freed
  map then holds exactly the ids of the list.
\<close>

theorem scanFreed_double_freed:
  "count_list (ch (scanFreed all start)) (DoubleFreed x) = count_list all x - 1
   \<and> set (ch (scanFreed all start)) \<subseteq> range DoubleFreed
   \<and> (freed_at (scanFreed all start) x \<longleftrightarrow> x \<in> set all)
   \<and> dom (freed (scanFreed all start)) = set all"
proof -
  have a: "freed_at start x = False" "ch start = []" "dom (freed start) = {}"
    by (simp_all add: start_def freed_at_def)
  show ?thesis
    using scanFreed_count [of all start x] scanFreed_only [of all start]
      scanFreed_freed_at [of all start x] scanFreed_dom [of all start]
    by (simp add: a)
qed

subsection \<open>The final sweep\<close>

lemma sweep_unfold:
  "sweep t i s =
     (if i < meta_pgid t
      then sweep t (i + 1)
             (if reachable s i = None \<and> \<not> freed_at s i
              then send (UnreachableUnfreed (sint i)) s else s)
      else s)"
  by (rule sweep.simps)

lemma sweep_frame: "reachable (sweep t i s) = reachable s \<and> freed (sweep t i s) = freed s"
proof (induction t i s rule: sweep.induct)
  case (1 t i s)
  show ?case
  proof (cases "i < meta_pgid t")
    case True
    with 1 show ?thesis
      by (subst (1 2) sweep_unfold) (simp add: send_simps)
  next
    case False
    then show ?thesis by (subst (1 2) sweep_unfold) simp
  qed
qed


lemma sweep_prefix:
  "\<exists>fs. ch (sweep t i s) = ch s @ fs \<and> set fs \<subseteq> range (\<lambda>j::pgid. UnreachableUnfreed (sint j))"
proof (induction t i s rule: sweep.induct)
  case (1 t i s)
  show ?case
  proof (cases "i < meta_pgid t")
    case True
    let ?s1 = "if reachable s i = None \<and> \<not> freed_at s i
               then send (UnreachableUnfreed (sint i)) s else s"
    have step: "sweep t i s = sweep t (i + 1) ?s1"
      using True by (subst sweep_unfold) simp
    obtain fs where fs: "ch (sweep t (i + 1) ?s1) = ch ?s1 @ fs"
        "set fs \<subseteq> range (\<lambda>j::pgid. UnreachableUnfreed (sint j))"
      using "1.IH" [OF True] by blast
    obtain gs where gs: "ch ?s1 = ch s @ gs" "set gs \<subseteq> range (\<lambda>j::pgid. UnreachableUnfreed (sint j))"
    proof (cases "reachable s i = None \<and> \<not> freed_at s i")
      case True
      have "UnreachableUnfreed (sint i) \<in> range (\<lambda>j::pgid. UnreachableUnfreed (sint j))"
        by (rule rangeI)
      then show ?thesis
        using True that [of "[UnreachableUnfreed (sint i)]"] by (simp add: send_simps)
    next
      case False
      then show ?thesis
        using that [of "[]"] by auto
    qed
    have "ch (sweep t i s) = ch s @ (gs @ fs)"
      by (subst step) (simp only: fs(1) gs(1) append_assoc)
    moreover have "set (gs @ fs) \<subseteq> range (\<lambda>j::pgid. UnreachableUnfreed (sint j))"
      using fs(2) gs(2) by simp
    ultimately show ?thesis
      by blast
  next
    case False
    then show ?thesis by (subst sweep_unfold) simp
  qed
qed

lemma sweep_count:
  "count_list (ch (sweep t i s)) (UnreachableUnfreed (sint j)) =
     count_list (ch s) (UnreachableUnfreed (sint j)) +
       (if i \<le> j \<and> j < meta_pgid t \<and> reachable s j = None \<and> \<not> freed_at s j then 1 else 0)"
proof (induction t i s rule: sweep.induct)
  case (1 t i s)
  show ?case
  proof (cases "i < meta_pgid t")
    case True
    let ?s1 = "if reachable s i = None \<and> \<not> freed_at s i
               then send (UnreachableUnfreed (sint i)) s else s"
    have step: "sweep t i s = sweep t (i + 1) ?s1"
      using True by (subst sweep_unfold) simp
    have same: "reachable ?s1 = reachable s" "freed_at ?s1 = freed_at s"
      by (simp_all add: send_simps freed_at_send)
    have here: "count_list (ch ?s1) (UnreachableUnfreed (sint j)) =
                  count_list (ch s) (UnreachableUnfreed (sint j)) +
                    (if i = j \<and> reachable s j = None \<and> \<not> freed_at s j then 1 else 0)"
      by (simp add: send_simps sint_pgid_eq)
    have "count_list (ch (sweep t i s)) (UnreachableUnfreed (sint j)) =
            count_list (ch ?s1) (UnreachableUnfreed (sint j)) +
              (if (i \<le> j \<and> i \<noteq> j) \<and> j < meta_pgid t \<and> reachable s j = None \<and> \<not> freed_at s j
               then 1 else 0)"
      by (subst step) (simp only: "1.IH" [OF True] same pgid_succ_le [OF True])
    also have "\<dots> = count_list (ch s) (UnreachableUnfreed (sint j)) +
       (if i \<le> j \<and> j < meta_pgid t \<and> reachable s j = None \<and> \<not> freed_at s j then 1 else 0)"
      unfolding here using True by (cases "i = j") simp_all
    finally show ?thesis .
  next
    case False
    have "i \<le> j \<Longrightarrow> j < meta_pgid t \<Longrightarrow> i < meta_pgid t"
      by (rule order_le_less_trans)
    with False have "\<not> (i \<le> j \<and> j < meta_pgid t)"
      by blast
    with False show ?thesis
      by (subst sweep_unfold) auto
  qed
qed

lemma sweepFindings_append: "ch (sweep t 0 s) = ch s @ sweepFindings t s"
  using sweep_prefix [of t 0 s] by (auto simp: sweepFindings_def)

text \<open>
  Claim C1. Run in any state \<open>s\<close> (in \<^verbatim>\<open>tx.check\<close>, the state the bucket walk returns), the
  sweep only appends to the channel and leaves both maps as they are; it sends nothing but
  \<open>UnreachableUnfreed\<close> findings; it sends the finding of page id \<open>i\<close> if and only if \<open>i\<close> is
  below \<^verbatim>\<open>meta.pgid\<close>, not a key of \<open>reachable\<close> and not freed; and it sends it exactly once
  then.
\<close>

theorem sweep_unreachable_unfreed:
  "ch (sweep t 0 s) = ch s @ sweepFindings t s
   \<and> reachable (sweep t 0 s) = reachable s
   \<and> freed (sweep t 0 s) = freed s
   \<and> set (sweepFindings t s) \<subseteq> range (\<lambda>j::pgid. UnreachableUnfreed (sint j))
   \<and> (UnreachableUnfreed (sint i) \<in> set (sweepFindings t s)
        \<longleftrightarrow> i < meta_pgid t \<and> reachable s i = None \<and> \<not> freed_at s i)
   \<and> count_list (sweepFindings t s) (UnreachableUnfreed (sint i)) =
        (if i < meta_pgid t \<and> reachable s i = None \<and> \<not> freed_at s i then 1 else 0)"
proof -
  have cnt: "count_list (sweepFindings t s) (UnreachableUnfreed (sint i)) =
        (if i < meta_pgid t \<and> reachable s i = None \<and> \<not> freed_at s i then 1 else 0)"
    using sweep_count [of t 0 s i] by (simp add: sweepFindings_append)
  have mem: "UnreachableUnfreed (sint i) \<in> set (sweepFindings t s)
        \<longleftrightarrow> i < meta_pgid t \<and> reachable s i = None \<and> \<not> freed_at s i"
    using cnt count_list_0_iff [of "sweepFindings t s" "UnreachableUnfreed (sint i)"]
    by (simp split: if_splits)
  have only: "set (sweepFindings t s) \<subseteq> range (\<lambda>j::pgid. UnreachableUnfreed (sint j))"
    using sweep_prefix [of t 0 s] by (auto simp: sweepFindings_def)
  show ?thesis
    using cnt mem only sweep_frame [of t 0 s] sweepFindings_append [of t s] by simp
qed

subsection \<open>The visit of one page\<close>

lemma claimSpan_unfold:
  "claimSpan p i s =
     (if i \<le> ucast (overflow p)
      then claimSpan p (i + 1)
             (let ident = id_p p + i;
                  s1 = (if reachable s ident \<noteq> None
                        then send (MultipleReferences (sint ident)) s else s)
              in s1\<lparr>reachable := (reachable s1)(ident \<mapsto> p)\<rparr>)
      else s)"
  by (rule claimSpan.simps)

lemma claimSpan_step: "i \<le> ucast (overflow p) \<Longrightarrow> claimSpan p i s = claimSpan p (i + 1) (claimOne p i s)"
  by (subst claimSpan_unfold) (simp add: claimOne_def)

lemma claimSpan_stop: "\<not> i \<le> ucast (overflow p) \<Longrightarrow> claimSpan p i s = s"
  by (subst claimSpan_unfold) simp

lemma claimOne_reachable:
  "reachable (claimOne p i s) x = (if x - id_p p = i then Some p else reachable s x)"
  by (auto simp: claimOne_def Let_def send_simps)

lemma claimOne_freed: "freed (claimOne p i s) = freed s"
  by (simp add: claimOne_def Let_def send_simps)

lemma claimOne_ch:
  "ch (claimOne p i s) =
     ch s @ (if reachable s (id_p p + i) \<noteq> None then [MultipleReferences (sint (id_p p + i))] else [])"
  by (simp add: claimOne_def Let_def send_simps)

lemma claimSpan_induct [case_names step]:
  assumes "\<And>p i s. (i \<le> ucast (overflow p) \<Longrightarrow> P p (i + 1) (claimOne p i s)) \<Longrightarrow> P p i s"
  shows "P p i s"
proof (induction p i s rule: claimSpan.induct)
  case (1 p i s)
  show ?case
  proof (rule assms)
    assume "i \<le> ucast (overflow p)"
    then show "P p (i + 1) (claimOne p i s)"
      using "1.IH" unfolding claimOne_def Let_def by simp
  qed
qed

lemma claimSpan_freed: "freed (claimSpan p i s) = freed s"
proof (induction p i s rule: claimSpan_induct)
  case (step p i s)
  show ?case
  proof (cases "i \<le> ucast (overflow p)")
    case True
    with step show ?thesis
      by (simp add: claimSpan_step claimOne_freed)
  next
    case False
    then show ?thesis
      by (simp add: claimSpan_stop)
  qed
qed

lemma claimSpan_reachable:
  "reachable (claimSpan p i s) x =
     (if i \<le> x - id_p p \<and> x - id_p p \<le> ucast (overflow p) then Some p else reachable s x)"
proof (induction p i s rule: claimSpan_induct)
  case (step p i s)
  show ?case
  proof (cases "i \<le> ucast (overflow p)")
    case True
    have le: "i + 1 \<le> x - id_p p \<longleftrightarrow> i \<le> x - id_p p \<and> i \<noteq> x - id_p p"
      by (rule pgid_succ_le [OF pgid_le_overflow [OF True]])
    show ?thesis
      using True by (auto simp: claimSpan_step step [OF True] claimOne_reachable le)
  next
    case False
    have "\<not> (i \<le> x - id_p p \<and> x - id_p p \<le> ucast (overflow p))"
      using False by (auto dest: order_trans)
    with False show ?thesis
      by (auto simp: claimSpan_stop)
  qed
qed

lemma claimSpan_count:
  "count_list (ch (claimSpan p i s)) (MultipleReferences (sint x)) =
     count_list (ch s) (MultipleReferences (sint x)) +
       (if i \<le> x - id_p p \<and> x - id_p p \<le> ucast (overflow p) \<and> reachable s x \<noteq> None
        then 1 else 0)"
proof (induction p i s rule: claimSpan_induct)
  case (step p i s)
  show ?case
  proof (cases "i \<le> ucast (overflow p)")
    case True
    have le: "i + 1 \<le> x - id_p p \<longleftrightarrow> i \<le> x - id_p p \<and> i \<noteq> x - id_p p"
      by (rule pgid_succ_le [OF pgid_le_overflow [OF True]])
    have eq: "id_p p + i = x \<longleftrightarrow> x - id_p p = i"
      by auto
    have here: "count_list (ch (claimOne p i s)) (MultipleReferences (sint x)) =
        count_list (ch s) (MultipleReferences (sint x)) +
          (if x - id_p p = i \<and> reachable s x \<noteq> None then 1 else 0)"
      by (auto simp: claimOne_ch sint_pgid_eq eq)
    show ?thesis
      unfolding claimSpan_step [OF True] step [OF True] here le claimOne_reachable
      using True by auto
  next
    case False
    have "\<not> (i \<le> x - id_p p \<and> x - id_p p \<le> ucast (overflow p))"
      using False by (auto dest: order_trans)
    with False show ?thesis
      by (auto simp: claimSpan_stop)
  qed
qed

lemma claimSpan_prefix:
  "\<exists>fs. ch (claimSpan p i s) = ch s @ fs \<and> set fs \<subseteq> range (\<lambda>j::pgid. MultipleReferences (sint j))"
proof (induction p i s rule: claimSpan_induct)
  case (step p i s)
  show ?case
  proof (cases "i \<le> ucast (overflow p)")
    case True
    obtain fs where fs: "ch (claimSpan p (i + 1) (claimOne p i s)) = ch (claimOne p i s) @ fs"
        "set fs \<subseteq> range (\<lambda>j::pgid. MultipleReferences (sint j))"
      using step [OF True] by blast
    let ?gs = "if reachable s (id_p p + i) \<noteq> None then [MultipleReferences (sint (id_p p + i))] else []"
    have "set ?gs \<subseteq> range (\<lambda>j::pgid. MultipleReferences (sint j))"
      by auto
    with fs(2) have "set (?gs @ fs) \<subseteq> range (\<lambda>j::pgid. MultipleReferences (sint j))"
      by simp
    moreover have "ch (claimSpan p i s) = ch s @ (?gs @ fs)"
      by (simp only: claimSpan_step [OF True] fs(1) claimOne_ch append_assoc)
    ultimately show ?thesis
      by blast
  next
    case False
    then show ?thesis
      by (simp add: claimSpan_stop)
  qed
qed

lemma inSpan_iff: "inSpan p x \<longleftrightarrow> (\<exists>i. i \<le> ucast (overflow p) \<and> x = id_p p + i)"
  unfolding inSpan_def
proof
  assume "x - id_p p \<le> ucast (overflow p)"
  moreover have "x = id_p p + (x - id_p p)"
    by simp
  ultimately show "\<exists>i. i \<le> ucast (overflow p) \<and> x = id_p p + i"
    by blast
next
  assume "\<exists>i. i \<le> ucast (overflow p) \<and> x = id_p p + i"
  then show "x - id_p p \<le> ucast (overflow p)"
    by auto
qed

text \<open>The three steps of the visit: line 71, lines 76 to 82, lines 85 to 89.\<close>

lemma visitPage_steps:
  "visitPage D t p depth s =
     (let s1 = (if id_p p > meta_pgid t
                then send (OutOfBounds (sint (id_p p)) (sint (meta_pgid t))) s else s);
          s2 = claimSpan p 0 s1
      in if freed_at s (id_p p) then send (ReachableFreed (sint (id_p p))) s2
         else if flags p AND branchPageFlag D = 0 \<and> flags p AND leafPageFlag D = 0
         then send (InvalidPageType (sint (id_p p)) (flags p)) s2
         else s2)"
proof -
  have "freed_at (claimSpan p 0 s1) = freed_at s" if "freed s1 = freed s" for s1
    using that by (rule_tac ext) (simp add: freed_at_def claimSpan_freed)
  then show ?thesis
    by (simp add: visitPage_def Let_def send_simps)
qed

lemma visitPage_reachable:
  "reachable (visitPage D t p depth s) x = (if inSpan p x then Some p else reachable s x)"
proof -
  have "reachable (visitPage D t p depth s) x =
          reachable (claimSpan p 0 (if id_p p > meta_pgid t
                then send (OutOfBounds (sint (id_p p)) (sint (meta_pgid t))) s else s)) x"
    by (simp add: visitPage_steps Let_def send_simps)
  also have "\<dots> = (if inSpan p x then Some p else reachable s x)"
    by (simp add: claimSpan_reachable inSpan_def send_simps)
  finally show ?thesis .
qed

lemma visitPage_freed: "freed (visitPage D t p depth s) = freed s"
  by (simp add: visitPage_steps Let_def send_simps claimSpan_freed)

lemma visitPage_prefix: "\<exists>fs. ch (visitPage D t p depth s) = ch s @ fs"
proof -
  let ?s1 = "if id_p p > meta_pgid t
             then send (OutOfBounds (sint (id_p p)) (sint (meta_pgid t))) s else s"
  have "\<exists>gs. ch ?s1 = ch s @ gs"
    by (simp add: send_simps)
  then obtain gs where gs: "ch ?s1 = ch s @ gs" ..
  obtain fs where fs: "ch (claimSpan p 0 ?s1) = ch ?s1 @ fs"
    using claimSpan_prefix [of p 0 ?s1] by blast
  have "\<exists>hs. ch (visitPage D t p depth s) = ch (claimSpan p 0 ?s1) @ hs"
    by (simp add: visitPage_steps Let_def send_simps)
  then obtain hs where "ch (visitPage D t p depth s) = ch (claimSpan p 0 ?s1) @ hs" ..
  then have "ch (visitPage D t p depth s) = ch s @ (gs @ fs @ hs)"
    by (simp only: fs gs append_assoc)
  then show ?thesis ..
qed

lemma visitFindings_append: "ch (visitPage D t p depth s) = ch s @ visitFindings D t p depth s"
  using visitPage_prefix [of D t p depth s] by (auto simp: visitFindings_def)

lemma visitPage_count_multiple:
  "count_list (ch (visitPage D t p depth s)) (MultipleReferences (sint x)) =
     count_list (ch s) (MultipleReferences (sint x)) +
       (if inSpan p x \<and> reachable s x \<noteq> None then 1 else 0)"
proof -
  let ?s1 = "if id_p p > meta_pgid t
             then send (OutOfBounds (sint (id_p p)) (sint (meta_pgid t))) s else s"
  have "count_list (ch (visitPage D t p depth s)) (MultipleReferences (sint x)) =
          count_list (ch (claimSpan p 0 ?s1)) (MultipleReferences (sint x))"
    by (simp add: visitPage_steps Let_def send_simps)
  also have "\<dots> = count_list (ch ?s1) (MultipleReferences (sint x)) +
       (if 0 \<le> x - id_p p \<and> x - id_p p \<le> ucast (overflow p) \<and> reachable ?s1 x \<noteq> None
        then 1 else 0)"
    by (rule claimSpan_count)
  also have "count_list (ch ?s1) (MultipleReferences (sint x)) =
      count_list (ch s) (MultipleReferences (sint x))"
    by (simp add: send_simps)
  also have "reachable ?s1 x = reachable s x"
    by (simp add: send_simps)
  finally show ?thesis
    by (simp add: inSpan_def)
qed

text \<open>
  Claim C2, as the code has it. The visit of page \<open>p\<close> only appends to the channel and leaves
  the freed map as it is. For every id \<open>x\<close> of the span of \<open>p\<close> it sends
  \<open>MultipleReferences x\<close> once if \<open>x\<close> was a key of \<open>reachable\<close> when the visit started, and
  not otherwise; it sends no such finding for an id outside the span. After the visit every
  id of the span maps to \<open>p\<close>, whether it was a key before or not (line 81 is not guarded by
  the test of line 78), and every other id maps to what it mapped to.
\<close>

theorem visitPage_claims_span:
  "ch (visitPage D t p depth s) = ch s @ visitFindings D t p depth s
   \<and> freed (visitPage D t p depth s) = freed s
   \<and> reachable (visitPage D t p depth s) x = (if inSpan p x then Some p else reachable s x)
   \<and> count_list (visitFindings D t p depth s) (MultipleReferences (sint x)) =
        (if inSpan p x \<and> reachable s x \<noteq> None then 1 else 0)"
proof -
  have "count_list (visitFindings D t p depth s) (MultipleReferences (sint x)) =
        (if inSpan p x \<and> reachable s x \<noteq> None then 1 else 0)"
    using visitPage_count_multiple [of D t p depth s x]
    by (simp add: visitFindings_append)
  then show ?thesis
    using visitFindings_append [of D t p depth s] visitPage_freed [of D t p depth s]
      visitPage_reachable [of D t p depth s x]
    by simp
qed

text \<open>
  Claim C2 as stated fails: page 5 is owned by \<open>pageA\<close> when the walk visits \<open>pageB\<close>, whose
  header also says id 5. The finding is sent and the entry of 5 is overwritten with \<open>pageB\<close>.
\<close>

text \<open>
  Claim C2 as stated fails: page 5 is owned by \<open>pageA\<close> when the walk visits \<open>pageB\<close>, whose
  header also says id 5. The finding is sent and the entry of 5 is overwritten with \<open>pageB\<close>.
\<close>

theorem visitPage_overwrites_owner:
  "reachable (visitPage decls0 txLeaf pageB 0 (start\<lparr>reachable := [5 \<mapsto> pageA]\<rparr>)) 5 = Some pageB
   \<and> pageB \<noteq> pageA
   \<and> ch (visitPage decls0 txLeaf pageB 0 (start\<lparr>reachable := [5 \<mapsto> pageA]\<rparr>)) = [MultipleReferences 5]"
  by (simp add: visitPage_def claimSpan.simps send_def freed_at_def start_def decls0_def
        txLeaf_def pageA_def pageB_def leafPage_def Let_def)

subsection \<open>The bound test of the walk\<close>

lemma visitPage_out_of_bounds:
  "OutOfBounds a b \<in> set (visitFindings D t p depth s)
     \<longleftrightarrow> meta_pgid t < id_p p \<and> a = sint (id_p p) \<and> b = sint (meta_pgid t)"
proof -
  let ?s1 = "if id_p p > meta_pgid t
             then send (OutOfBounds (sint (id_p p)) (sint (meta_pgid t))) s else s"
  obtain fs where fs: "ch (claimSpan p 0 ?s1) = ch ?s1 @ fs"
      "set fs \<subseteq> range (\<lambda>j::pgid. MultipleReferences (sint j))"
    using claimSpan_prefix [of p 0 ?s1] by blast
  have no: "OutOfBounds a b \<notin> set fs"
    using fs(2) by auto
  have "\<exists>hs. ch (visitPage D t p depth s) = ch (claimSpan p 0 ?s1) @ hs \<and> OutOfBounds a b \<notin> set hs"
    by (simp add: visitPage_steps Let_def send_simps)
  then obtain hs where hs: "ch (visitPage D t p depth s) = ch (claimSpan p 0 ?s1) @ hs"
      "OutOfBounds a b \<notin> set hs"
    by blast
  have "visitFindings D t p depth s =
      (if id_p p > meta_pgid t then [OutOfBounds (sint (id_p p)) (sint (meta_pgid t))] else []) @ fs @ hs"
    by (simp add: visitFindings_def hs(1) fs(1) send_simps)
  then show ?thesis
    using no hs(2) by auto
qed

text \<open>
  Claim C4 at the page whose id is the high-water mark. In \<open>txLeaf\<close> the mark is 10 and every
  page is a leaf whose header holds its own id. The walk of a bucket rooted at page 10 visits
  that page and sends nothing; rooted at page 11 it sends \<open>OutOfBounds\<close>. The test of line 71
  is \<^verbatim>\<open>p.id > tx.meta.pgid\<close>, while the sweep of lines 51 to 56 treats \<^verbatim>\<open>tx.meta.pgid\<close> as the
  first id that is not a page.
\<close>

theorem checkBucket_page_at_high_water_mark:
  "meta_pgid txLeaf = 10 \<and> id_p (page_of txLeaf 10) = 10
   \<and> map_option ch (checkBucket (Suc 0) decls0 txLeaf (Bucket 10 []) HexKeyValueStringer start)
       = Some []
   \<and> map_option ch (checkBucket (Suc 0) decls0 txLeaf (Bucket 11 []) HexKeyValueStringer start)
       = Some [OutOfBounds 11 10]"
  by (simp add: txLeaf_def leafPage_def decls0_def start_def visitPage_def claimSpan.simps
        recursivelyCheckPages_def send_def freed_at_def Let_def)

subsection \<open>Seeding the reachable map\<close>

lemma unat_ucast_32: "unat (ucast (v :: 32 word) :: pgid) = unat v"
  by (simp add: unsigned_ucast_eq take_bit_nat_eq_self order_less_le_trans [OF unsigned_less])

lemma ucast_le_32: "(ucast (a :: 32 word) :: pgid) \<le> ucast (b :: 32 word) \<longleftrightarrow> a \<le> b"
  by (simp add: word_le_nat_alt unat_ucast_32)

lemma ucast_succ_32:
  fixes a b :: "32 word"
  assumes "a \<le> b" and "b < 0xffffffff"
  shows "unat (a + 1) = Suc (unat a)" and "(ucast (a + 1) :: pgid) = ucast a + 1"
proof -
  have "unat a \<le> unat b"
    using assms(1) by (simp add: word_le_nat_alt)
  moreover have "unat b < 4294967295"
    using assms(2) by (simp add: word_less_nat_alt)
  ultimately have lt: "Suc (unat a) < 2 ^ 32"
    by simp
  then show 1: "unat (a + 1) = Suc (unat a)"
    by (simp add: unat_word_ariths)
  have "unat (ucast a + 1 :: pgid) = Suc (unat a)"
    using lt by (simp add: unat_word_ariths unat_ucast_32)
  then have "unat (ucast (a + 1) :: pgid) = unat (ucast a + 1 :: pgid)"
    by (simp add: unat_ucast_32 1)
  then show "(ucast (a + 1) :: pgid) = ucast a + 1"
    by (rule unsigned_word_eqI)
qed

lemma seedFreelist_run:
  assumes "overflow (page_of t (meta_freelist t)) < 0xffffffff"
    and "unat i \<le> Suc (unat (overflow (page_of t (meta_freelist t))))"
    and "unat (overflow (page_of t (meta_freelist t))) + 2 \<le> n + unat i"
  shows "seedFreelist n t i s =
     Some (s\<lparr>reachable := (\<lambda>x. if ucast i \<le> x - meta_freelist t
                                   \<and> x - meta_freelist t \<le> ucast (overflow (page_of t (meta_freelist t)))
                                then Some (page_of t (meta_freelist t)) else reachable s x)\<rparr>)"
  using assms(2,3)
proof (induction n arbitrary: i s)
  case 0
  then show ?case by simp
next
  case (Suc n)
  let ?fl = "meta_freelist t"
  let ?pg = "page_of t ?fl"
  let ?ov = "overflow ?pg"
  show ?case
  proof (cases "i \<le> ?ov")
    case True
    let ?s1 = "s\<lparr>reachable := (reachable s)(?fl + ucast i \<mapsto> ?pg)\<rparr>"
    note succ = ucast_succ_32 [OF True assms(1)]
    have le: "unat i \<le> unat ?ov"
      using True by (simp add: word_le_nat_alt)
    have run: "seedFreelist n t (i + 1) ?s1 =
       Some (?s1\<lparr>reachable := (\<lambda>x. if ucast (i + 1) \<le> x - ?fl \<and> x - ?fl \<le> ucast ?ov
                                then Some ?pg else reachable ?s1 x)\<rparr>)"
      using Suc.prems le by (intro Suc.IH) (simp_all add: succ(1))
    have lt: "(ucast i :: pgid) < 2 ^ 32"
      by (rule pgid_le_overflow [of _ i]) simp
    have f: "(\<lambda>x. if ucast (i + 1) \<le> x - ?fl \<and> x - ?fl \<le> ucast ?ov
                    then Some ?pg else reachable ?s1 x) =
             (\<lambda>x. if ucast i \<le> x - ?fl \<and> x - ?fl \<le> ucast ?ov
                    then Some ?pg else reachable s x)"
    proof
      fix x
      have eq: "x = ?fl + ucast i \<longleftrightarrow> ucast i = x - ?fl"
        by auto
      have "(ucast i :: pgid) \<le> ucast ?ov"
        using True by (simp add: ucast_le_32)
      then show "(if ucast (i + 1) \<le> x - ?fl \<and> x - ?fl \<le> ucast ?ov
                    then Some ?pg else reachable ?s1 x) =
             (if ucast i \<le> x - ?fl \<and> x - ?fl \<le> ucast ?ov
                    then Some ?pg else reachable s x)"
        unfolding succ(2) pgid_succ_le [OF lt]
        by (cases "ucast i = x - ?fl") (simp_all add: eq)
    qed
    show ?thesis
      using True by (simp add: run f)
  next
    case False
    have no: "(ucast i \<le> x - ?fl \<and> x - ?fl \<le> ucast ?ov) = False" for x :: pgid
    proof (rule iffI)
      assume "ucast i \<le> x - ?fl \<and> x - ?fl \<le> ucast ?ov"
      then have "(ucast i :: pgid) \<le> ucast ?ov"
        by (auto dest: order_trans)
      with False show False
        by (simp add: ucast_le_32)
    qed simp
    show ?thesis
      using False by (simp add: no)
  qed
qed

lemma seedFreelist_forever:
  "overflow (page_of t (meta_freelist t)) = 0xffffffff \<Longrightarrow> seedFreelist n t i s = None"
proof (induction n arbitrary: i s)
  case 0
  show ?case by simp
next
  case (Suc n)
  have "unat i < 2 ^ 32"
    using unsigned_less [of i] by simp
  then have "i \<le> 0xffffffff"
    by (simp add: word_le_nat_alt)
  with Suc show ?case
    by simp
qed

text \<open>
  Claim C10. Seeding (lines 38 to 45) starts from a fresh map and writes its entries with no
  test and no send: the state it returns differs from the one it started in by the
  \<open>reachable\<close> map only, so the channel and the freed map are as before. Without a persisted
  free list the map holds pages 0 and 1. With one, every id of the span of the free-list page
  maps to that page, also id 0 or 1 when the span covers it, and ids 0 and 1 map to the meta
  pages otherwise; the loop needs \<open>overflow + 2\<close> tests of its condition. When \<open>overflow\<close> is the
  greatest \<^verbatim>\<open>uint32\<close> the loop does not end, for any bound.
\<close>

theorem seedReachable_unconditional:
  "(meta_freelist t = pgidNoFreelist D \<longrightarrow>
      seedReachable n D t s = Some (s\<lparr>reachable := [0 \<mapsto> page_of t 0, 1 \<mapsto> page_of t 1]\<rparr>))
   \<and> (meta_freelist t \<noteq> pgidNoFreelist D
        \<and> overflow (page_of t (meta_freelist t)) < 0xffffffff
        \<and> unat (overflow (page_of t (meta_freelist t))) + 2 \<le> n \<longrightarrow>
      seedReachable n D t s =
        Some (s\<lparr>reachable :=
                (\<lambda>x. if x - meta_freelist t \<le> ucast (overflow (page_of t (meta_freelist t)))
                      then Some (page_of t (meta_freelist t))
                      else if x = 1 then Some (page_of t 1)
                      else if x = 0 then Some (page_of t 0) else None)\<rparr>))
   \<and> (meta_freelist t \<noteq> pgidNoFreelist D
        \<and> overflow (page_of t (meta_freelist t)) = 0xffffffff \<longrightarrow>
      seedReachable n D t s = None)"
proof (intro conjI impI)
  assume "meta_freelist t = pgidNoFreelist D"
  then show "seedReachable n D t s = Some (s\<lparr>reachable := [0 \<mapsto> page_of t 0, 1 \<mapsto> page_of t 1]\<rparr>)"
    by (simp add: seedReachable_def)
next
  assume a: "meta_freelist t \<noteq> pgidNoFreelist D
        \<and> overflow (page_of t (meta_freelist t)) < 0xffffffff
        \<and> unat (overflow (page_of t (meta_freelist t))) + 2 \<le> n"
  let ?s3 = "s\<lparr>reachable := [0 \<mapsto> page_of t 0, 1 \<mapsto> page_of t 1]\<rparr>"
  have "seedFreelist n t 0 ?s3 =
     Some (?s3\<lparr>reachable := (\<lambda>x. if ucast (0 :: 32 word) \<le> x - meta_freelist t
                                   \<and> x - meta_freelist t \<le> ucast (overflow (page_of t (meta_freelist t)))
                                then Some (page_of t (meta_freelist t)) else reachable ?s3 x)\<rparr>)"
    using a by (intro seedFreelist_run) simp_all
  moreover have "(\<lambda>x. if ucast (0 :: 32 word) \<le> x - meta_freelist t
                                   \<and> x - meta_freelist t \<le> ucast (overflow (page_of t (meta_freelist t)))
                                then Some (page_of t (meta_freelist t)) else reachable ?s3 x) =
      (\<lambda>x. if x - meta_freelist t \<le> ucast (overflow (page_of t (meta_freelist t)))
                      then Some (page_of t (meta_freelist t))
                      else if x = 1 then Some (page_of t 1)
                      else if x = 0 then Some (page_of t 0) else None)"
    by (rule ext) simp
  ultimately show "seedReachable n D t s =
        Some (s\<lparr>reachable :=
                (\<lambda>x. if x - meta_freelist t \<le> ucast (overflow (page_of t (meta_freelist t)))
                      then Some (page_of t (meta_freelist t))
                      else if x = 1 then Some (page_of t 1)
                      else if x = 0 then Some (page_of t 0) else None)\<rparr>)"
    using a by (simp add: seedReachable_def)
next
  assume "meta_freelist t \<noteq> pgidNoFreelist D
        \<and> overflow (page_of t (meta_freelist t)) = 0xffffffff"
  then show "seedReachable n D t s = None"
    by (simp add: seedReachable_def seedFreelist_forever)
qed

theorem seedReachable_unconditional_witness:
  "meta_freelist txEmpty = pgidNoFreelist decls0
   \<and> seedReachable 0 decls0 txEmpty start =
       Some (start\<lparr>reachable := [0 \<mapsto> page_of txEmpty 0, 1 \<mapsto> page_of txEmpty 1]\<rparr>)
   \<and> meta_freelist txSeed \<noteq> pgidNoFreelist decls0
   \<and> overflow (page_of txSeed (meta_freelist txSeed)) < 0xffffffff
   \<and> unat (overflow (page_of txSeed (meta_freelist txSeed))) + 2 \<le> 3
   \<and> seedReachable 3 decls0 txSeed start =
       Some (start\<lparr>reachable :=
                (\<lambda>x. if x - meta_freelist txSeed \<le> ucast (overflow (page_of txSeed (meta_freelist txSeed)))
                      then Some (page_of txSeed (meta_freelist txSeed))
                      else if x = 1 then Some (page_of txSeed 1)
                      else if x = 0 then Some (page_of txSeed 0) else None)\<rparr>)
   \<and> meta_freelist txSeedMax \<noteq> pgidNoFreelist decls0
   \<and> overflow (page_of txSeedMax (meta_freelist txSeedMax)) = 0xffffffff
   \<and> seedReachable 5 decls0 txSeedMax start = None"
proof -
  have a: "meta_freelist txEmpty = pgidNoFreelist decls0"
    by (simp add: txEmpty_def decls0_def)
  have b: "meta_freelist txSeed \<noteq> pgidNoFreelist decls0
      \<and> overflow (page_of txSeed (meta_freelist txSeed)) < 0xffffffff
      \<and> unat (overflow (page_of txSeed (meta_freelist txSeed))) + 2 \<le> 3"
    by (simp add: txSeed_def decls0_def)
  have c: "meta_freelist txSeedMax \<noteq> pgidNoFreelist decls0
      \<and> overflow (page_of txSeedMax (meta_freelist txSeedMax)) = 0xffffffff"
    by (simp add: txSeedMax_def decls0_def)
  show ?thesis
    using seedReachable_unconditional [of txEmpty decls0 0 start]
      seedReachable_unconditional [of txSeed decls0 3 start]
      seedReachable_unconditional [of txSeedMax decls0 5 start] a b c
    by blast
qed

subsection \<open>Inline buckets\<close>

lemma sweep_nothing:
  "(\<And>j. j < meta_pgid t \<Longrightarrow> reachable s j \<noteq> None \<or> freed_at s j) \<Longrightarrow> sweep t i s = s"
proof (induction t i s rule: sweep.induct)
  case (1 t i s)
  show ?case
  proof (cases "i < meta_pgid t")
    case True
    have no: "(reachable s i = None \<and> \<not> freed_at s i) = False"
      using "1.prems" [OF True] by blast
    have "sweep t i s = sweep t (i + 1) s"
      using True by (subst sweep.simps) (simp only: no if_False if_True)
    also have "\<dots> = s"
      using "1.IH" [OF True] "1.prems" by (simp only: no if_False)
    finally show ?thesis .
  next
    case False
    then show ?thesis
      by (subst sweep.simps) simp
  qed
qed

lemma pgid_below_two:
  fixes i p :: pgid
  assumes "i < p" and "p \<le> 2"
  shows "i = 0 \<or> i = 1"
proof -
  have "unat i < unat p" "unat p \<le> 2"
    using assms by (simp_all add: word_less_nat_alt word_le_nat_alt)
  then have "unat i = unat (0 :: pgid) \<or> unat i = unat (1 :: pgid)"
    by auto
  then show ?thesis
    by (blast dest: unsigned_word_eqI)
qed

text \<open>
  Claim C8. A bucket whose root is 0 is returned from at once, for every bound: the state is
  the one passed in, so nothing is sent and neither map changes. Hence the check of a
  transaction with an inline root bucket, an empty free list that is not persisted and no
  page besides the two meta pages ends, for every bound, in the seeded state with nothing
  sent.
\<close>

theorem checkBucket_inline:
  "(root b = 0 \<longrightarrow> checkBucket n D t b keyValueStringer s = Some s)
   \<and> (root (root_bucket t) = 0 \<and> freelist_all t = [] \<and> meta_freelist t = pgidNoFreelist D
        \<and> meta_pgid t \<le> 2 \<longrightarrow>
      check n D t keyValueStringer =
        Some \<lparr>reachable = [0 \<mapsto> page_of t 0, 1 \<mapsto> page_of t 1], freed = Map.empty, ch = []\<rparr>)"
proof (intro conjI impI)
  assume "root b = 0"
  then show "checkBucket n D t b keyValueStringer s = Some s"
    by (cases b) simp
next
  assume a: "root (root_bucket t) = 0 \<and> freelist_all t = [] \<and> meta_freelist t = pgidNoFreelist D
        \<and> meta_pgid t \<le> 2"
  let ?s = "\<lparr>reachable = [0 \<mapsto> page_of t 0, 1 \<mapsto> page_of t 1], freed = Map.empty, ch = []\<rparr>"
  have seed: "seedReachable n D t (scanFreed (freelist_all t) start) = Some ?s"
    using a by (simp add: seedReachable_def start_def)
  have walk: "checkBucket n D t (root_bucket t) keyValueStringer ?s = Some ?s"
    using a by (cases "root_bucket t") simp
  have "sweep t 0 ?s = ?s"
  proof (rule sweep_nothing)
    fix j assume "j < meta_pgid t"
    with a have "j = 0 \<or> j = 1"
      by (intro pgid_below_two [of j "meta_pgid t"]) simp_all
    then show "reachable ?s j \<noteq> None \<or> freed_at ?s j"
      by auto
  qed
  then show "check n D t keyValueStringer = Some ?s"
    by (simp add: check_def seed walk)
qed

theorem checkBucket_inline_witness:
  "root (Bucket 0 [([0x61], None)]) = 0
   \<and> checkBucket 0 decls0 txLeaf (Bucket 0 [([0x61], None)]) HexKeyValueStringer start = Some start
   \<and> root (root_bucket txEmpty) = 0 \<and> freelist_all txEmpty = []
   \<and> meta_freelist txEmpty = pgidNoFreelist decls0 \<and> meta_pgid txEmpty \<le> 2
   \<and> check 0 decls0 txEmpty HexKeyValueStringer =
        Some \<lparr>reachable = [0 \<mapsto> page_of txEmpty 0, 1 \<mapsto> page_of txEmpty 1], freed = Map.empty,
              ch = []\<rparr>"
proof -
  have a: "root (Bucket 0 [([0x61], None)]) = 0"
    by simp
  have b: "root (root_bucket txEmpty) = 0 \<and> freelist_all txEmpty = []
      \<and> meta_freelist txEmpty = pgidNoFreelist decls0 \<and> meta_pgid txEmpty \<le> 2"
    by (simp add: txEmpty_def decls0_def)
  show ?thesis
    using checkBucket_inline [of "Bucket 0 [([0x61], None)]" 0 decls0 txLeaf HexKeyValueStringer start]
      checkBucket_inline [of "Bucket 0 []" 0 decls0 txEmpty HexKeyValueStringer start] a b
    by blast
qed

subsection \<open>The key-order validation: unfolding and induction\<close>

lemma recursivelyCheckPagesInternal_Suc:
  "recursivelyCheckPagesInternal (Suc n) D t pg minKeyClosed maxKeyOpen pagesStack keyToString s =
     (if flags (page_of t pg) AND branchPageFlag D \<noteq> 0
      then branchLoop n D t pg maxKeyOpen (pagesStack @ [pg]) keyToString 0
             (branchPageElements (page_of t pg)) minKeyClosed None s
      else if flags (page_of t pg) AND leafPageFlag D \<noteq> 0
      then Some (if leafPageElements (page_of t pg) \<noteq> []
                 then Some (lkey (last (leafPageElements (page_of t pg)))) else None,
                 leafLoop pg maxKeyOpen (pagesStack @ [pg]) keyToString 0
                   (leafPageElements (page_of t pg)) minKeyClosed s)
      else Some (None, send (UnexpectedPageType pg) s))"
  by (simp add: Let_def)

lemma branchLoop_Cons:
  "branchLoop n D t pg maxKeyOpen pagesStack keyToString i (elem # es) runningMin maxKeyInSubtree s =
     (case recursivelyCheckPagesInternal n D t (bpgid elem) (Some (bkey elem))
             (childMaxKey maxKeyOpen es) pagesStack keyToString
             (branchChecks pg maxKeyOpen pagesStack keyToString i elem runningMin s) of
        None \<Rightarrow> None
      | Some (m, s3) \<Rightarrow> branchLoop n D t pg maxKeyOpen pagesStack keyToString (i + 1) es m m s3)"
  unfolding branchChecks_def childMaxKey_def Let_def
  by (simp add: Let_def)

lemma recursivelyCheckPagesInternal_induct [case_names zero page nil cons]:
  assumes zero: "\<And>D t pg minKeyClosed maxKeyOpen pagesStack keyToString s.
      P 0 D t pg minKeyClosed maxKeyOpen pagesStack keyToString s"
    and page: "\<And>n D t pg minKeyClosed maxKeyOpen pagesStack keyToString s.
      (flags (page_of t pg) AND branchPageFlag D \<noteq> 0 \<Longrightarrow>
         Q n D t pg maxKeyOpen (pagesStack @ [pg]) keyToString 0
           (branchPageElements (page_of t pg)) minKeyClosed None s) \<Longrightarrow>
      P (Suc n) D t pg minKeyClosed maxKeyOpen pagesStack keyToString s"
    and nil: "\<And>n D t pg maxKeyOpen pagesStack keyToString i runningMin maxKeyInSubtree s.
      Q n D t pg maxKeyOpen pagesStack keyToString i [] runningMin maxKeyInSubtree s"
    and cons: "\<And>n D t pg maxKeyOpen pagesStack keyToString i elem es runningMin maxKeyInSubtree s.
      P n D t (bpgid elem) (Some (bkey elem)) (childMaxKey maxKeyOpen es) pagesStack keyToString
        (branchChecks pg maxKeyOpen pagesStack keyToString i elem runningMin s) \<Longrightarrow>
      (\<And>m s3.
         recursivelyCheckPagesInternal n D t (bpgid elem) (Some (bkey elem))
           (childMaxKey maxKeyOpen es) pagesStack keyToString
           (branchChecks pg maxKeyOpen pagesStack keyToString i elem runningMin s) = Some (m, s3) \<Longrightarrow>
         Q n D t pg maxKeyOpen pagesStack keyToString (i + 1) es m m s3) \<Longrightarrow>
      Q n D t pg maxKeyOpen pagesStack keyToString i (elem # es) runningMin maxKeyInSubtree s"
  shows "P n D t pg minKeyClosed maxKeyOpen pagesStack keyToString s"
    and "Q n D t pg maxKeyOpen pagesStack keyToString i es runningMin maxKeyInSubtree s"
proof (induction n D t pg minKeyClosed maxKeyOpen pagesStack keyToString s
    and n D t pg maxKeyOpen pagesStack keyToString i es runningMin maxKeyInSubtree s
    rule: recursivelyCheckPagesInternal_branchLoop.induct)
  case (1 D t pg minKeyClosed maxKeyOpen pagesStack keyToString s)
  show ?case by (rule zero)
next
  case (2 n D t pg minKeyClosed maxKeyOpen pagesStack keyToString s)
  show ?case
    by (rule page) (rule "2.IH" [OF refl refl])
next
  case (3 n D t pg maxKeyOpen pagesStack keyToString i runningMin maxKeyInSubtree s)
  show ?case by (rule nil)
next
  case (4 n D t pg maxKeyOpen pagesStack keyToString i elem es runningMin maxKeyInSubtree s)
  show ?case
  proof (rule cons)
    show "P n D t (bpgid elem) (Some (bkey elem)) (childMaxKey maxKeyOpen es) pagesStack keyToString
        (branchChecks pg maxKeyOpen pagesStack keyToString i elem runningMin s)"
      unfolding branchChecks_def childMaxKey_def Let_def
      by (rule "4.IH"(1) [OF refl refl refl refl])
  next
    fix m s3
    assume "recursivelyCheckPagesInternal n D t (bpgid elem) (Some (bkey elem))
           (childMaxKey maxKeyOpen es) pagesStack keyToString
           (branchChecks pg maxKeyOpen pagesStack keyToString i elem runningMin s) = Some (m, s3)"
    then show "Q n D t pg maxKeyOpen pagesStack keyToString (i + 1) es m m s3"
      unfolding branchChecks_def childMaxKey_def Let_def
      by (intro "4.IH"(2) [OF refl refl refl refl]) simp_all
  qed
qed

declare recursivelyCheckPagesInternal.simps(2) [simp del] branchLoop.simps(2) [simp del]

subsection \<open>The stringer and what is detected\<close>

lemma detections_simps:
  "reachable (detections s) = reachable s" "freed (detections s) = freed s"
  "ch (detections s) = map detection (ch s)"
  by (simp_all add: detections_def)

lemma detections_send: "detections (send f s) = send (detection f) (detections s)"
  by (simp add: detections_def send_def)

lemma freed_at_detections: "freed_at (detections s) = freed_at s"
  by (rule ext) (simp add: freed_at_def detections_simps)

lemma detections_update:
  "detections (s\<lparr>reachable := m\<rparr>) = (detections s)\<lparr>reachable := m\<rparr>"
  "detections (s\<lparr>freed := f\<rparr>) = (detections s)\<lparr>freed := f\<rparr>"
  by (simp_all add: detections_def)

lemma detections_start: "detections start = start"
  by (simp add: detections_def start_def)

lemma leafLoop_detections:
  "detections (leafLoop pg maxKeyOpen pagesStack keyToString i es runningMin s) =
     leafLoop pg maxKeyOpen pagesStack (\<lambda>k. []) i es runningMin (detections s)"
  by (induction es arbitrary: i runningMin s) (simp_all add: Let_def detections_send)

lemma branchChecks_detections:
  "detections (branchChecks pg maxKeyOpen pagesStack keyToString i elem runningMin s) =
     branchChecks pg maxKeyOpen pagesStack (\<lambda>k. []) i elem runningMin (detections s)"
  by (simp add: branchChecks_def Let_def detections_send)

lemma recursivelyCheckPagesInternal_detections:
  "map_option (map_prod id detections)
       (recursivelyCheckPagesInternal n D t pg minKeyClosed maxKeyOpen pagesStack keyToString s) =
     recursivelyCheckPagesInternal n D t pg minKeyClosed maxKeyOpen pagesStack (\<lambda>k. []) (detections s)"
  and branchLoop_detections:
  "map_option (map_prod id detections)
       (branchLoop n D t pg maxKeyOpen pagesStack keyToString i es runningMin maxKeyInSubtree s) =
     branchLoop n D t pg maxKeyOpen pagesStack (\<lambda>k. []) i es runningMin maxKeyInSubtree (detections s)"
proof (induction n D t pg minKeyClosed maxKeyOpen pagesStack keyToString s
    and n D t pg maxKeyOpen pagesStack keyToString i es runningMin maxKeyInSubtree s
    rule: recursivelyCheckPagesInternal_induct)
  case (zero D t pg minKeyClosed maxKeyOpen pagesStack keyToString s)
  show ?case by simp
next
  case (page n D t pg minKeyClosed maxKeyOpen pagesStack keyToString s)
  then show ?case
    by (simp add: recursivelyCheckPagesInternal_Suc leafLoop_detections detections_send)
next
  case (nil n D t pg maxKeyOpen pagesStack keyToString i runningMin maxKeyInSubtree s)
  show ?case by simp
next
  case (cons n D t pg maxKeyOpen pagesStack keyToString i elem es runningMin maxKeyInSubtree s)
  let ?c = "recursivelyCheckPagesInternal n D t (bpgid elem) (Some (bkey elem))
              (childMaxKey maxKeyOpen es) pagesStack keyToString
              (branchChecks pg maxKeyOpen pagesStack keyToString i elem runningMin s)"
  show ?case
  proof (cases ?c)
    case None
    with cons(1) show ?thesis
      by (simp add: branchLoop_Cons branchChecks_detections)
  next
    case (Some r)
    obtain m s3 where r: "r = (m, s3)"
      by (cases r)
    from cons(1) Some r
    have "recursivelyCheckPagesInternal n D t (bpgid elem) (Some (bkey elem))
              (childMaxKey maxKeyOpen es) pagesStack (\<lambda>k. [])
              (branchChecks pg maxKeyOpen pagesStack (\<lambda>k. []) i elem runningMin (detections s))
          = Some (m, detections s3)"
      by (simp add: branchChecks_detections)
    with cons(2) [of m s3] Some r show ?thesis
      by (simp add: branchLoop_Cons)
  qed
qed

lemma claimOne_detections: "detections (claimOne p i s) = claimOne p i (detections s)"
  by (simp add: claimOne_def Let_def detections_send detections_simps)
     (simp add: detections_def send_def)

lemma claimSpan_detections: "detections (claimSpan p i s) = claimSpan p i (detections s)"
proof (induction p i s rule: claimSpan_induct)
  case (step p i s)
  show ?case
  proof (cases "i \<le> ucast (overflow p)")
    case True
    with step show ?thesis
      by (simp add: claimSpan_step claimOne_detections)
  next
    case False
    then show ?thesis
      by (simp add: claimSpan_stop)
  qed
qed

lemma visitPage_detections:
  "detections (visitPage D t p depth s) = visitPage D t p depth (detections s)"
  by (simp add: visitPage_steps Let_def detections_send claimSpan_detections freed_at_detections)

lemma forEachPage_detections:
  "map_option detections (forEachPage n D t pg depth (visitPage D t) s) =
     forEachPage n D t pg depth (visitPage D t) (detections s)"
  and forEachChild_detections:
  "map_option detections (forEachChild n D t es depth (visitPage D t) s) =
     forEachChild n D t es depth (visitPage D t) (detections s)"
proof (induction n D t pg depth "visitPage D t" s and n D t es depth "visitPage D t" s
    rule: forEachPage_forEachChild.induct)
  case (1 D t pg depth s)
  show ?case by simp
next
  case (2 n D t pg depth s)
  then show ?case
    by (simp add: Let_def visitPage_detections)
next
  case (3 n D t depth s)
  show ?case by simp
next
  case (4 n D t e es depth s)
  show ?case
  proof (cases "forEachPage n D t (bpgid e) depth (visitPage D t) s")
    case None
    with "4.hyps"(1) show ?thesis by simp
  next
    case (Some s1)
    with "4.hyps"(1)
    have "forEachPage n D t (bpgid e) depth (visitPage D t) (detections s) = Some (detections s1)"
      by simp
    with "4.hyps"(2) [OF Some] Some show ?thesis by simp
  qed
qed

lemma checkBucket_detections:
  "map_option detections (checkBucket n D t b keyValueStringer s) =
     checkBucket n D t b blankStringer (detections s)"
  and checkEntries_detections:
  "map_option detections (checkEntries n D t es keyValueStringer s) =
     checkEntries n D t es blankStringer (detections s)"
proof (induction n D t b keyValueStringer s and n D t es keyValueStringer s
    rule: checkBucket_checkEntries.induct)
  case (1 n D t r es keyValueStringer s)
  show ?case
  proof (cases "r = 0")
    case True
    then show ?thesis by simp
  next
    case False
    note walk = forEachPage_detections [of n D t r 0 s]
    show ?thesis
    proof (cases "forEachPage n D t r 0 (visitPage D t) s")
      case None
      with walk False show ?thesis by simp
    next
      case (Some s1)
      with walk have w: "forEachPage n D t r 0 (visitPage D t) (detections s) = Some (detections s1)"
        by simp
      note keys = recursivelyCheckPagesInternal_detections
          [of n D t r None None "[]" "KeyToString keyValueStringer" s1]
      show ?thesis
      proof (cases "recursivelyCheckPages n D t r (KeyToString keyValueStringer) s1")
        case None
        with keys False Some w show ?thesis
          by (simp add: recursivelyCheckPages_def blankStringer_def)
      next
        case (Some ms)
        obtain m s2 where ms: "ms = (m, s2)"
          by (cases ms)
        from keys Some ms
        have k: "recursivelyCheckPages n D t r (KeyToString blankStringer) (detections s1)
            = Some (m, detections s2)"
          by (simp add: recursivelyCheckPages_def blankStringer_def)
        from "1.IH" [OF False \<open>forEachPage n D t r 0 (visitPage D t) s = Some s1\<close> Some ms [symmetric]]
        have "map_option detections (checkEntries n D t es keyValueStringer s2) =
            checkEntries n D t es blankStringer (detections s2)" .
        with False \<open>forEachPage n D t r 0 (visitPage D t) s = Some s1\<close> w Some ms k show ?thesis
          by simp
      qed
    qed
  qed
next
  case (2 n D t keyValueStringer s)
  show ?case by simp
next
  case (3 n D t k es keyValueStringer s)
  then show ?case by simp
next
  case (4 n D t k child es keyValueStringer s)
  show ?case
  proof (cases "checkBucket n D t child keyValueStringer s")
    case None
    with "4.IH"(1) show ?thesis by simp
  next
    case (Some s1)
    with "4.IH"(1)
    have "checkBucket n D t child blankStringer (detections s) = Some (detections s1)"
      by simp
    with "4.IH"(2) [OF Some] Some show ?thesis by simp
  qed
qed

lemma seedFreelist_detections:
  "map_option detections (seedFreelist n t i s) = seedFreelist n t i (detections s)"
proof (induction n arbitrary: i s)
  case 0
  show ?case by simp
next
  case (Suc n)
  then show ?case
    by (simp add: detections_simps detections_update)
qed

lemma seedReachable_detections:
  "map_option detections (seedReachable n D t s) = seedReachable n D t (detections s)"
  by (simp add: seedReachable_def Let_def seedFreelist_detections detections_update)

lemma scanFreed_detections: "detections (scanFreed xs s) = scanFreed xs (detections s)"
proof (induction xs arbitrary: s)
  case Nil
  show ?case by simp
next
  case (Cons i rest)
  then show ?case
    by (simp add: detections_send freed_at_detections detections_simps detections_update)
qed

lemma sweep_detections: "detections (sweep t i s) = sweep t i (detections s)"
proof (induction t i s rule: sweep.induct)
  case (1 t i s)
  show ?case
  proof (cases "i < meta_pgid t")
    case True
    with 1 show ?thesis
      by (subst (1 2) sweep.simps)
         (simp add: detections_send detections_simps freed_at_detections)
  next
    case False
    then show ?thesis
      by (subst (1 2) sweep.simps) simp
  qed
qed

lemma check_detections:
  "map_option detections (check n D t keyValueStringer) = check n D t blankStringer"
proof -
  let ?s0 = "scanFreed (freelist_all t) start"
  have s0: "detections ?s0 = ?s0"
    by (simp add: scanFreed_detections detections_start)
  show ?thesis
  proof (cases "seedReachable n D t ?s0")
    case None
    then show ?thesis by (simp add: check_def)
  next
    case (Some s1)
    with seedReachable_detections [of n D t ?s0] have s1: "detections s1 = s1"
      by (simp add: s0)
    show ?thesis
    proof (cases "checkBucket n D t (root_bucket t) keyValueStringer s1")
      case None
      with checkBucket_detections [of n D t "root_bucket t" keyValueStringer s1] Some show ?thesis
        by (simp add: check_def s1)
    next
      case (Some s2)
      with checkBucket_detections [of n D t "root_bucket t" keyValueStringer s1]
      have "checkBucket n D t (root_bucket t) blankStringer s1 = Some (detections s2)"
        by (simp add: s1)
      with Some \<open>seedReachable n D t ?s0 = Some s1\<close> show ?thesis
        by (simp add: check_def sweep_detections)
    qed
  qed
qed

text \<open>
  Claim C7. Blank the strings of every finding. Then two runs on the same transaction with
  any two stringers agree: both stop at the same bound or both return, with the same maps
  and the same findings in the same order (the same \<^verbatim>\<open>fmt.Errorf\<close> calls with the same
  indices, page ids and stacks). This holds for the whole check, for \<^verbatim>\<open>checkBucket\<close> from any
  state, and for the key-order validation from any state, which also returns the same key.
\<close>

theorem check_stringer_independent:
  "map_option detections (check n D t stringer1) = map_option detections (check n D t stringer2)
   \<and> map_option detections (checkBucket n D t b stringer1 s) =
       map_option detections (checkBucket n D t b stringer2 s)
   \<and> map_option (map_prod id detections)
         (recursivelyCheckPages n D t pg (KeyToString stringer1) s) =
       map_option (map_prod id detections)
         (recursivelyCheckPages n D t pg (KeyToString stringer2) s)"
  by (simp add: check_detections checkBucket_detections recursivelyCheckPages_def
        recursivelyCheckPagesInternal_detections)

subsection \<open>Termination of the key-order validation\<close>

lemma recursivelyCheckPagesInternal_Suc_mono:
  "recursivelyCheckPagesInternal n D t pg minKeyClosed maxKeyOpen pagesStack keyToString s = Some r
     \<longrightarrow> recursivelyCheckPagesInternal (Suc n) D t pg minKeyClosed maxKeyOpen pagesStack keyToString s
           = Some r"
  and branchLoop_Suc_mono:
  "branchLoop n D t pg maxKeyOpen pagesStack keyToString i es runningMin maxKeyInSubtree s = Some r
     \<longrightarrow> branchLoop (Suc n) D t pg maxKeyOpen pagesStack keyToString i es runningMin maxKeyInSubtree s
           = Some r"
proof (induction n D t pg minKeyClosed maxKeyOpen pagesStack keyToString s
    and n D t pg maxKeyOpen pagesStack keyToString i es runningMin maxKeyInSubtree s
    arbitrary: r and r rule: recursivelyCheckPagesInternal_induct)
  case (zero D t pg minKeyClosed maxKeyOpen pagesStack keyToString s)
  show ?case by simp
next
  case (page n D t pg minKeyClosed maxKeyOpen pagesStack keyToString s)
  show ?case
  proof (cases "flags (page_of t pg) AND branchPageFlag D \<noteq> 0")
    case True
    with page [OF True, of r] show ?thesis
      by (simp add: recursivelyCheckPagesInternal_Suc)
  next
    case False
    then show ?thesis
      by (simp add: recursivelyCheckPagesInternal_Suc)
  qed
next
  case (nil n D t pg maxKeyOpen pagesStack keyToString i runningMin maxKeyInSubtree s)
  show ?case by simp
next
  case (cons n D t pg maxKeyOpen pagesStack keyToString i elem es runningMin maxKeyInSubtree s)
  let ?c = "recursivelyCheckPagesInternal n D t (bpgid elem) (Some (bkey elem))
              (childMaxKey maxKeyOpen es) pagesStack keyToString
              (branchChecks pg maxKeyOpen pagesStack keyToString i elem runningMin s)"
  show ?case
  proof (cases ?c)
    case None
    then show ?thesis
      by (simp add: branchLoop_Cons)
  next
    case (Some ms)
    obtain m s3 where ms: "ms = (m, s3)"
      by (cases ms)
    from cons(1) [of "(m, s3)"] Some ms
    have "recursivelyCheckPagesInternal (Suc n) D t (bpgid elem) (Some (bkey elem))
              (childMaxKey maxKeyOpen es) pagesStack keyToString
              (branchChecks pg maxKeyOpen pagesStack keyToString i elem runningMin s) = Some (m, s3)"
      by simp
    with cons(2) [of m s3 r] Some ms show ?thesis
      by (simp add: branchLoop_Cons)
  qed
qed

lemma recursivelyCheckPagesInternal_mono:
  assumes "recursivelyCheckPagesInternal n D t pg minKeyClosed maxKeyOpen pagesStack keyToString s
      = Some r"
    and "n \<le> m"
  shows "recursivelyCheckPagesInternal m D t pg minKeyClosed maxKeyOpen pagesStack keyToString s
      = Some r"
  using assms(2,1)
proof (induction m)
  case 0
  then show ?case by simp
next
  case (Suc m)
  show ?case
  proof (cases "n = Suc m")
    case True
    with Suc.prems show ?thesis by simp
  next
    case False
    with Suc have "recursivelyCheckPagesInternal m D t pg minKeyClosed maxKeyOpen pagesStack
        keyToString s = Some r"
      by simp
    then show ?thesis
      using recursivelyCheckPagesInternal_Suc_mono by blast
  qed
qed

text \<open>
  With bound \<open>n\<close> the validation of page \<open>pg\<close> returns whatever the bounds, the stack, the
  stringer and the state are.
\<close>

lemma returns_mono:
  "returns n D t pg \<Longrightarrow> n \<le> m \<Longrightarrow> returns m D t pg"
  unfolding returns_def
proof (intro allI)
  fix minKeyClosed maxKeyOpen pagesStack keyToString s
  assume a: "\<forall>minKeyClosed maxKeyOpen pagesStack keyToString s.
      recursivelyCheckPagesInternal n D t pg minKeyClosed maxKeyOpen pagesStack keyToString s \<noteq> None"
    and le: "n \<le> m"
  from a obtain r where
    "recursivelyCheckPagesInternal n D t pg minKeyClosed maxKeyOpen pagesStack keyToString s = Some r"
    by blast
  from recursivelyCheckPagesInternal_mono [OF this le]
  show "recursivelyCheckPagesInternal m D t pg minKeyClosed maxKeyOpen pagesStack keyToString s \<noteq> None"
    by simp
qed

lemma branchLoop_returns:
  assumes "\<And>e. e \<in> set es \<Longrightarrow> returns n D t (bpgid e)"
  shows "branchLoop n D t pg maxKeyOpen pagesStack keyToString i es runningMin maxKeyInSubtree s
      \<noteq> None"
  using assms
proof (induction es arbitrary: i runningMin maxKeyInSubtree s)
  case Nil
  show ?case by simp
next
  case (Cons elem es)
  have "returns n D t (bpgid elem)"
    by (rule Cons.prems) simp
  then obtain m s3 where
    "recursivelyCheckPagesInternal n D t (bpgid elem) (Some (bkey elem))
       (childMaxKey maxKeyOpen es) pagesStack keyToString
       (branchChecks pg maxKeyOpen pagesStack keyToString i elem runningMin s) = Some (m, s3)"
    unfolding returns_def by (metis not_None_eq surj_pair)
  moreover have "branchLoop n D t pg maxKeyOpen pagesStack keyToString (i + 1) es m m s3 \<noteq> None"
    by (rule Cons.IH) (simp add: Cons.prems)
  ultimately show ?case
    by (simp add: branchLoop_Cons)
qed

lemma common_bound:
  assumes "\<And>c. c \<in> set cs \<Longrightarrow> \<exists>n. returns n D t c"
  shows "\<exists>n. \<forall>c \<in> set cs. returns n D t c"
  using assms
proof (induction cs)
  case Nil
  show ?case by simp
next
  case (Cons c cs)
  obtain n1 where n1: "returns n1 D t c"
    using Cons.prems [of c] by auto
  obtain n2 where n2: "\<forall>c \<in> set cs. returns n2 D t c"
    using Cons.IH Cons.prems by auto
  have "\<forall>c' \<in> set (c # cs). returns (max n1 n2) D t c'"
    using n1 n2 by (auto intro: returns_mono)
  then show ?case ..
qed

lemma page_returns:
  assumes "\<And>c. c \<in> set (children D t pg) \<Longrightarrow> \<exists>n. returns n D t c"
  shows "\<exists>n. returns n D t pg"
proof -
  obtain n where n: "\<forall>c \<in> set (children D t pg). returns n D t c"
    using common_bound [OF assms] by blast
  have "returns (Suc n) D t pg"
    unfolding returns_def
  proof (intro allI)
    fix minKeyClosed maxKeyOpen pagesStack keyToString s
    show "recursivelyCheckPagesInternal (Suc n) D t pg minKeyClosed maxKeyOpen pagesStack
        keyToString s \<noteq> None"
    proof (cases "flags (page_of t pg) AND branchPageFlag D \<noteq> 0")
      case True
      have "returns n D t (bpgid e)" if "e \<in> set (branchPageElements (page_of t pg))" for e
        using n that True by (simp add: children_def)
      from branchLoop_returns [of "branchPageElements (page_of t pg)", OF this] True
      show ?thesis
        by (simp add: recursivelyCheckPagesInternal_Suc)
    next
      case False
      then show ?thesis
        by (simp add: recursivelyCheckPagesInternal_Suc)
    qed
  qed
  then show ?thesis ..
qed

lemma treeShaped_returns:
  assumes "treeShaped D t pg"
  shows "\<exists>n. returns n D t pg"
proof -
  let ?A = "descendants D t pg"
  let ?R = "childRel D t \<inter> ?A \<times> ?A"
  have "finite ?R"
    by simp
  with assms have "wf ?R"
    unfolding treeShaped_def by (intro finite_acyclic_wf)
  then have "q \<in> ?A \<longrightarrow> (\<exists>n. returns n D t q)" for q
  proof (induction q rule: wf_induct_rule)
    case (less q)
    show ?case
    proof
      assume q: "q \<in> ?A"
      show "\<exists>n. returns n D t q"
      proof (rule page_returns)
        fix c
        assume "c \<in> set (children D t q)"
        then have edge: "(c, q) \<in> childRel D t"
          by (simp add: childRel_def)
        with q have "c \<in> ?A"
          by (auto simp: descendants_def intro: converse_rtrancl_into_rtrancl)
        with edge q less.IH [of c] show "\<exists>n. returns n D t c"
          by simp
      qed
    qed
  qed
  moreover have "pg \<in> ?A"
    by (simp add: descendants_def)
  ultimately show ?thesis
    by blast
qed

lemma txLoop_never:
  "recursivelyCheckPagesInternal n decls0 txLoop 2 minKeyClosed maxKeyOpen pagesStack keyToString s
     = None"
proof (induction n arbitrary: minKeyClosed maxKeyOpen pagesStack s)
  case 0
  show ?case by simp
next
  case (Suc n)
  have br: "flags (page_of txLoop 2) AND branchPageFlag decls0 \<noteq> 0"
    by (simp add: txLoop_def branchPage_def decls0_def)
  have els: "branchPageElements (page_of txLoop 2) = [\<lparr>bkey = [0x61], bpgid = 2\<rparr>]"
    by (simp add: txLoop_def branchPage_def)
  show ?case
    by (simp add: recursivelyCheckPagesInternal_Suc br els branchLoop_Cons Suc.IH)
qed

lemma txLoop_cycle: "\<not> treeShaped decls0 txLoop 2"
proof -
  have edge: "(2, 2) \<in> childRel decls0 txLoop"
    by (simp add: childRel_def children_def txLoop_def branchPage_def decls0_def)
  have "2 \<in> descendants decls0 txLoop 2"
    by (simp add: descendants_def)
  with edge have "(2, 2) \<in> (childRel decls0 txLoop \<inter>
      descendants decls0 txLoop 2 \<times> descendants decls0 txLoop 2)\<^sup>+"
    by (intro r_into_trancl) simp
  then show ?thesis
    unfolding treeShaped_def acyclic_def by blast
qed

text \<open>
  Claim C9. When the pages that can be reached from the starting page through the child
  references of branch pages form a graph with no cycle, there is a depth within which the
  validation of that page returns, whatever its other arguments, and it returns within every
  greater depth too. The condition is needed: in \<open>txLoop\<close> page 2 is a branch page whose
  element points to page 2, the graph has a cycle, and the validation does not return within
  any depth. Nothing in the function looks at the stack of pages it carries.
\<close>

theorem recursivelyCheckPages_terminates:
  "(treeShaped D t pg \<longrightarrow>
      (\<exists>n. \<forall>m\<ge>n.
         (\<forall>minKeyClosed maxKeyOpen pagesStack keyToString s.
            recursivelyCheckPagesInternal m D t pg minKeyClosed maxKeyOpen pagesStack keyToString s
              \<noteq> None)
         \<and> (\<forall>keyToString s. recursivelyCheckPages m D t pg keyToString s \<noteq> None)))
   \<and> \<not> treeShaped decls0 txLoop 2
   \<and> (\<forall>n keyToString s. recursivelyCheckPages n decls0 txLoop 2 keyToString s = None)"
proof (intro conjI impI)
  assume "treeShaped D t pg"
  then obtain n where n: "returns n D t pg"
    using treeShaped_returns by blast
  have "\<forall>m\<ge>n.
         (\<forall>minKeyClosed maxKeyOpen pagesStack keyToString s.
            recursivelyCheckPagesInternal m D t pg minKeyClosed maxKeyOpen pagesStack keyToString s
              \<noteq> None)
         \<and> (\<forall>keyToString s. recursivelyCheckPages m D t pg keyToString s \<noteq> None)"
  proof (intro allI impI)
    fix m assume "n \<le> m"
    with n have "returns m D t pg"
      by (rule returns_mono)
    then show "(\<forall>minKeyClosed maxKeyOpen pagesStack keyToString s.
            recursivelyCheckPagesInternal m D t pg minKeyClosed maxKeyOpen pagesStack keyToString s
              \<noteq> None)
         \<and> (\<forall>keyToString s. recursivelyCheckPages m D t pg keyToString s \<noteq> None)"
      by (simp add: returns_def recursivelyCheckPages_def)
  qed
  then show "\<exists>n. \<forall>m\<ge>n.
         (\<forall>minKeyClosed maxKeyOpen pagesStack keyToString s.
            recursivelyCheckPagesInternal m D t pg minKeyClosed maxKeyOpen pagesStack keyToString s
              \<noteq> None)
         \<and> (\<forall>keyToString s. recursivelyCheckPages m D t pg keyToString s \<noteq> None)" ..
next
  show "\<not> treeShaped decls0 txLoop 2"
    by (rule txLoop_cycle)
next
  show "\<forall>n keyToString s. recursivelyCheckPages n decls0 txLoop 2 keyToString s = None"
    by (simp add: recursivelyCheckPages_def txLoop_never)
qed

theorem recursivelyCheckPages_terminates_witness:
  "treeShaped decls0 txTwo 2
   \<and> (\<exists>n. \<forall>keyToString s. recursivelyCheckPages n decls0 txTwo 2 keyToString s \<noteq> None)"
proof -
  have "children decls0 txTwo pg = (if pg = 2 then [3] else [])" for pg
    by (simp add: children_def txTwo_def branchPage_def leafPage_def decls0_def)
  then have rel: "childRel decls0 txTwo = {(3, 2)}"
    by (auto simp: childRel_def split: if_splits)
  have one: "acyclic {(3 :: pgid, 2 :: pgid)}"
    by (simp add: acyclic_insert wf_acyclic)
  have a: "treeShaped decls0 txTwo 2"
    unfolding treeShaped_def rel by (rule acyclic_subset [OF one]) blast
  from recursivelyCheckPages_terminates [of decls0 txTwo 2]
  have "treeShaped decls0 txTwo 2 \<longrightarrow>
      (\<exists>n. \<forall>m\<ge>n.
         (\<forall>minKeyClosed maxKeyOpen pagesStack keyToString s.
            recursivelyCheckPagesInternal m decls0 txTwo 2 minKeyClosed maxKeyOpen pagesStack
              keyToString s \<noteq> None)
         \<and> (\<forall>keyToString s. recursivelyCheckPages m decls0 txTwo 2 keyToString s \<noteq> None))"
    by (rule conjunct1)
  from this a obtain n where "\<forall>m\<ge>n.
         (\<forall>minKeyClosed maxKeyOpen pagesStack keyToString s.
            recursivelyCheckPagesInternal m decls0 txTwo 2 minKeyClosed maxKeyOpen pagesStack
              keyToString s \<noteq> None)
         \<and> (\<forall>keyToString s. recursivelyCheckPages m decls0 txTwo 2 keyToString s \<noteq> None)"
    by (elim impE exE)
  then have "\<forall>keyToString s. recursivelyCheckPages n decls0 txTwo 2 keyToString s \<noteq> None"
    by simp
  then have "\<exists>n. \<forall>keyToString s. recursivelyCheckPages n decls0 txTwo 2 keyToString s \<noteq> None" ..
  with a show ?thesis ..
qed

subsection \<open>The key the validation returns\<close>

lemma compareBytes_refl: "compareBytes k k = 0"
  by (induction k) simp_all

lemma ascending_last:
  assumes "ascending ks" and "k \<in> set ks"
  shows "compareKeys (Some k) (Some (last ks)) \<le> 0"
  using assms
proof (induction ks)
  case Nil
  then show ?case by simp
next
  case (Cons x xs)
  show ?case
  proof (cases "xs = []")
    case True
    with Cons.prems show ?thesis
      by (simp add: compareKeys_def bytes_of_def compareBytes_refl)
  next
    case False
    then have l: "last xs \<in> set xs"
      by simp
    show ?thesis
    proof (cases "k = x")
      case True
      with Cons.prems(1) l False show ?thesis
        by (simp add: ascending_def)
    next
      case neq: False
      with Cons.prems have "ascending xs" "k \<in> set xs"
        by (simp_all add: ascending_def)
      with Cons.IH False show ?thesis
        by simp
    qed
  qed
qed

lemma recursivelyCheckPagesInternal_last_key:
  "recursivelyCheckPagesInternal n D t pg minKeyClosed maxKeyOpen pagesStack keyToString s
       = Some (r, s1) \<longrightarrow>
     (\<exists>ks rs pre. subtreeKeys n D t pg = Some ks \<and> rightmostLeaf n D t pg = Some rs
        \<and> ks = pre @ rs \<and> r = (if rs = [] then None else Some (last rs)))"
  and branchLoop_last_key:
  "branchLoop n D t pg maxKeyOpen pagesStack keyToString i es runningMin maxKeyInSubtree s
       = Some (r, s1) \<longrightarrow>
     (\<exists>ks. childrenKeys n D t es = Some ks \<and>
        (if es = [] then r = maxKeyInSubtree
         else (\<exists>rs pre. rightmostLeaf n D t (bpgid (last es)) = Some rs \<and> ks = pre @ rs
                 \<and> r = (if rs = [] then None else Some (last rs)))))"
proof (induction n D t pg minKeyClosed maxKeyOpen pagesStack keyToString s
    and n D t pg maxKeyOpen pagesStack keyToString i es runningMin maxKeyInSubtree s
    arbitrary: r s1 and r s1 rule: recursivelyCheckPagesInternal_induct)
  case (zero D t pg minKeyClosed maxKeyOpen pagesStack keyToString s)
  show ?case by simp
next
  case (page n D t pg minKeyClosed maxKeyOpen pagesStack keyToString s)
  let ?es = "branchPageElements (page_of t pg)"
  show ?case
  proof (cases "flags (page_of t pg) AND branchPageFlag D \<noteq> 0")
    case True
    show ?thesis
    proof
      assume "recursivelyCheckPagesInternal (Suc n) D t pg minKeyClosed maxKeyOpen pagesStack
          keyToString s = Some (r, s1)"
      with True have "branchLoop n D t pg maxKeyOpen (pagesStack @ [pg]) keyToString 0 ?es
          minKeyClosed None s = Some (r, s1)"
        by (simp add: recursivelyCheckPagesInternal_Suc)
      with page [OF True, of r s1] obtain ks where
        ks: "childrenKeys n D t ?es = Some ks"
          "if ?es = [] then r = None
           else (\<exists>rs pre. rightmostLeaf n D t (bpgid (last ?es)) = Some rs \<and> ks = pre @ rs
                   \<and> r = (if rs = [] then None else Some (last rs)))"
        by blast
      have keys: "subtreeKeys (Suc n) D t pg = Some ks"
        using ks(1) True by (simp add: Let_def)
      show "\<exists>ks rs pre. subtreeKeys (Suc n) D t pg = Some ks
          \<and> rightmostLeaf (Suc n) D t pg = Some rs
          \<and> ks = pre @ rs \<and> r = (if rs = [] then None else Some (last rs))"
      proof (cases "?es = []")
        case True
        with ks(2) have "r = None"
          by simp
        moreover have "rightmostLeaf (Suc n) D t pg = Some []"
          using True \<open>flags (page_of t pg) AND branchPageFlag D \<noteq> 0\<close> by (simp add: Let_def)
        ultimately show ?thesis
          using keys by simp
      next
        case False
        with ks(2) obtain rs pre where
          rs: "rightmostLeaf n D t (bpgid (last ?es)) = Some rs" "ks = pre @ rs"
            "r = (if rs = [] then None else Some (last rs))"
          by auto
        have "rightmostLeaf (Suc n) D t pg = Some rs"
          using False rs(1) \<open>flags (page_of t pg) AND branchPageFlag D \<noteq> 0\<close>
          by (simp add: Let_def)
        with keys rs(2,3) show ?thesis
          by blast
      qed
    qed
  next
    case False
    show ?thesis
    proof (cases "flags (page_of t pg) AND leafPageFlag D \<noteq> 0")
      case True
      with False have
        "subtreeKeys (Suc n) D t pg = Some (map lkey (leafPageElements (page_of t pg)))"
        "rightmostLeaf (Suc n) D t pg = Some (map lkey (leafPageElements (page_of t pg)))"
        by (simp_all add: Let_def)
      moreover have "map lkey (leafPageElements (page_of t pg)) =
          [] @ map lkey (leafPageElements (page_of t pg))"
        by simp
      moreover have "recursivelyCheckPagesInternal (Suc n) D t pg minKeyClosed maxKeyOpen
            pagesStack keyToString s = Some (r, s1) \<longrightarrow>
          r = (if map lkey (leafPageElements (page_of t pg)) = [] then None
               else Some (last (map lkey (leafPageElements (page_of t pg)))))"
        using True False by (auto simp: recursivelyCheckPagesInternal_Suc last_map)
      ultimately show ?thesis
        by blast
    next
      case neither: False
      with False have "subtreeKeys (Suc n) D t pg = Some []"
        "rightmostLeaf (Suc n) D t pg = Some []"
        by (simp_all add: Let_def)
      moreover have "recursivelyCheckPagesInternal (Suc n) D t pg minKeyClosed maxKeyOpen
            pagesStack keyToString s = Some (r, s1) \<longrightarrow> r = None"
        using neither False by (auto simp: recursivelyCheckPagesInternal_Suc)
      ultimately show ?thesis
        by simp
    qed
  qed
next
  case (nil n D t pg maxKeyOpen pagesStack keyToString i runningMin maxKeyInSubtree s)
  show ?case by simp
next
  case (cons n D t pg maxKeyOpen pagesStack keyToString i elem es runningMin maxKeyInSubtree s)
  let ?c = "recursivelyCheckPagesInternal n D t (bpgid elem) (Some (bkey elem))
              (childMaxKey maxKeyOpen es) pagesStack keyToString
              (branchChecks pg maxKeyOpen pagesStack keyToString i elem runningMin s)"
  show ?case
  proof
    assume run: "branchLoop n D t pg maxKeyOpen pagesStack keyToString i (elem # es) runningMin
        maxKeyInSubtree s = Some (r, s1)"
    then obtain m s3 where c: "?c = Some (m, s3)"
      by (cases ?c) (auto simp: branchLoop_Cons)
    with run have rest: "branchLoop n D t pg maxKeyOpen pagesStack keyToString (i + 1) es m m s3
        = Some (r, s1)"
      by (simp add: branchLoop_Cons)
    from cons(1) [of m s3] c obtain k1 r1 p1 where
      k1: "subtreeKeys n D t (bpgid elem) = Some k1" "rightmostLeaf n D t (bpgid elem) = Some r1"
        "k1 = p1 @ r1" "m = (if r1 = [] then None else Some (last r1))"
      by blast
    from cons(2) [OF c, of r s1] rest obtain k2 where
      k2: "childrenKeys n D t es = Some k2"
        "if es = [] then r = m
         else (\<exists>rs pre. rightmostLeaf n D t (bpgid (last es)) = Some rs \<and> k2 = pre @ rs
                 \<and> r = (if rs = [] then None else Some (last rs)))"
      by blast
    have keys: "childrenKeys n D t (elem # es) = Some (k1 @ k2)"
      using k1(1) k2(1) by simp
    have "\<exists>rs pre. rightmostLeaf n D t (bpgid (last (elem # es))) = Some rs \<and> k1 @ k2 = pre @ rs
        \<and> r = (if rs = [] then None else Some (last rs))"
    proof (cases "es = []")
      case True
      with k2 have "r = m" "k2 = []"
        by simp_all
      with k1 True show ?thesis
        by auto
    next
      case False
      with k2(2) obtain rs pre where
        rs: "rightmostLeaf n D t (bpgid (last es)) = Some rs" "k2 = pre @ rs"
          "r = (if rs = [] then None else Some (last rs))"
        by auto
      have "k1 @ k2 = (k1 @ pre) @ rs"
        using rs(2) by simp
      with rs(1,3) False show ?thesis
        by auto
    qed
    with keys show "\<exists>ks. childrenKeys n D t (elem # es) = Some ks \<and>
        (if elem # es = [] then r = maxKeyInSubtree
         else (\<exists>rs pre. rightmostLeaf n D t (bpgid (last (elem # es))) = Some rs \<and> ks = pre @ rs
                 \<and> r = (if rs = [] then None else Some (last rs))))"
      by simp
  qed
qed

text \<open>
  Claim C6, as the code has it. Where the validation of a page returns, the keys of the
  subtree and those of its rightmost leaf are defined within the same depth, the latter are
  the end of the former, and the value returned is determined by them: it is the key of the
  last element of the rightmost leaf, and \<^verbatim>\<open>nil\<close> exactly when that page holds no key. So
  the validation returns \<^verbatim>\<open>nil\<close> when the subtree holds no key; when the rightmost leaf holds
  a key it returns the last key of the subtree in traversal order; and when moreover the keys
  of the subtree are ascending in traversal order it returns a key of the subtree that no
  key of the subtree exceeds. The validation does return, within some depth and every greater
  one, when the starting page is tree-shaped.
\<close>

theorem recursivelyCheckPages_returns_last_key:
  "(recursivelyCheckPagesInternal n D t pg minKeyClosed maxKeyOpen pagesStack keyToString s
       = Some (r, s1) \<longrightarrow>
     (\<exists>ks rs pre. subtreeKeys n D t pg = Some ks \<and> rightmostLeaf n D t pg = Some rs
        \<and> ks = pre @ rs
        \<and> r = (if rs = [] then None else Some (last rs))
        \<and> (ks = [] \<longrightarrow> r = None)
        \<and> (rs \<noteq> [] \<longrightarrow> r = Some (last ks))
        \<and> (ascending ks \<and> rs \<noteq> [] \<longrightarrow>
             (\<exists>k \<in> set ks. r = Some k) \<and> (\<forall>k \<in> set ks. compareKeys (Some k) r \<le> 0))))
   \<and> (treeShaped D t pg \<longrightarrow>
        (\<exists>n0. \<forall>m\<ge>n0.
           recursivelyCheckPagesInternal m D t pg minKeyClosed maxKeyOpen pagesStack keyToString s
             \<noteq> None))"
proof (intro conjI impI)
  assume "recursivelyCheckPagesInternal n D t pg minKeyClosed maxKeyOpen pagesStack keyToString s
       = Some (r, s1)"
  with recursivelyCheckPagesInternal_last_key obtain ks rs pre where
    ks: "subtreeKeys n D t pg = Some ks" "rightmostLeaf n D t pg = Some rs" "ks = pre @ rs"
      "r = (if rs = [] then None else Some (last rs))"
    by blast
  have empty: "ks = [] \<longrightarrow> r = None"
    using ks(3,4) by simp
  have lst: "rs \<noteq> [] \<longrightarrow> r = Some (last ks)"
    using ks(3,4) by simp
  have "(\<exists>k \<in> set ks. r = Some k) \<and> (\<forall>k \<in> set ks. compareKeys (Some k) r \<le> 0)"
    if "ascending ks \<and> rs \<noteq> []"
  proof -
    from that ks(3) lst have r: "ks \<noteq> []" "r = Some (last ks)"
      by auto
    then have "last ks \<in> set ks"
      by simp
    with r that show ?thesis
      by (auto intro: ascending_last)
  qed
  with ks empty lst show "\<exists>ks rs pre. subtreeKeys n D t pg = Some ks
        \<and> rightmostLeaf n D t pg = Some rs
        \<and> ks = pre @ rs
        \<and> r = (if rs = [] then None else Some (last rs))
        \<and> (ks = [] \<longrightarrow> r = None)
        \<and> (rs \<noteq> [] \<longrightarrow> r = Some (last ks))
        \<and> (ascending ks \<and> rs \<noteq> [] \<longrightarrow>
             (\<exists>k \<in> set ks. r = Some k) \<and> (\<forall>k \<in> set ks. compareKeys (Some k) r \<le> 0))"
    by blast
next
  assume "treeShaped D t pg"
  then obtain n0 where n0: "returns n0 D t pg"
    using treeShaped_returns by blast
  have "\<forall>m\<ge>n0. recursivelyCheckPagesInternal m D t pg minKeyClosed maxKeyOpen pagesStack
      keyToString s \<noteq> None"
  proof (intro allI impI)
    fix m assume "n0 \<le> m"
    with n0 have "returns m D t pg"
      by (rule returns_mono)
    then show "recursivelyCheckPagesInternal m D t pg minKeyClosed maxKeyOpen pagesStack
        keyToString s \<noteq> None"
      by (simp add: returns_def)
  qed
  then show "\<exists>n0. \<forall>m\<ge>n0. recursivelyCheckPagesInternal m D t pg minKeyClosed maxKeyOpen
      pagesStack keyToString s \<noteq> None" ..
qed

text \<open>The equations that run the definitions on a concrete input.\<close>

lemmas run_simps =
  recursivelyCheckPagesInternal.simps branchLoop.simps claimSpan.simps sweep.simps
  recursivelyCheckPages_def visitPage_def check_def seedReachable_def send_def freed_at_def
  start_def decls0_def leafPage_def branchPage_def compareKeys_def bytes_of_def Let_def
  HexKeyValueStringer_def EncodeToString_def hexDigit_def

theorem recursivelyCheckPages_returns_last_key_witness:
  "recursivelyCheckPagesInternal (Suc (Suc 0)) decls0 txSorted 2 None None [] EncodeToString start =
     Some (Some [0x64], start)
   \<and> subtreeKeys (Suc (Suc 0)) decls0 txSorted 2 = Some [[0x61], [0x62], [0x63], [0x64]]
   \<and> rightmostLeaf (Suc (Suc 0)) decls0 txSorted 2 = Some [[0x63], [0x64]]
   \<and> ascending [[0x61], [0x62], [0x63], [0x64]]
   \<and> Some [0x64 :: byte] = Some (last [[0x61], [0x62], [0x63], [0x64]])
   \<and> compareKeys (Some [0x61]) (Some [0x64]) \<le> 0
   \<and> compareKeys (Some [0x62]) (Some [0x64]) \<le> 0
   \<and> compareKeys (Some [0x63]) (Some [0x64]) \<le> 0
   \<and> compareKeys (Some [0x64]) (Some [0x64]) \<le> 0
   \<and> treeShaped decls0 txSorted 2
   \<and> (\<exists>n0. recursivelyCheckPagesInternal n0 decls0 txSorted 2 None None [] EncodeToString start
         \<noteq> None)"
proof -
  have run: "recursivelyCheckPagesInternal (Suc (Suc 0)) decls0 txSorted 2 None None []
      EncodeToString start = Some (Some [0x64], start)"
    by (simp add: run_simps txSorted_def)
  have keys: "subtreeKeys (Suc (Suc 0)) decls0 txSorted 2 = Some [[0x61], [0x62], [0x63], [0x64]]"
    by (simp add: run_simps txSorted_def)
  have right: "rightmostLeaf (Suc (Suc 0)) decls0 txSorted 2 = Some [[0x63], [0x64]]"
    by (simp add: run_simps txSorted_def)
  have asc: "ascending [[0x61], [0x62], [0x63], [0x64]]"
    by (simp add: ascending_def compareKeys_def bytes_of_def)
  have "children decls0 txSorted pg = (if pg = 2 then [3, 4] else [])" for pg
    by (simp add: children_def txSorted_def branchPage_def leafPage_def decls0_def)
  then have "childRel decls0 txSorted \<subseteq> measure (\<lambda>pg. if pg = 2 then 1 else 0)"
    by (auto simp: childRel_def split: if_splits)
  then have "acyclic (childRel decls0 txSorted)"
    by (rule acyclic_subset [rotated]) (simp add: wf_acyclic)
  then have tree: "treeShaped decls0 txSorted 2"
    unfolding treeShaped_def by (rule acyclic_subset) blast
  note inst = recursivelyCheckPages_returns_last_key
    [of "Suc (Suc 0)" decls0 txSorted 2 None None "[]" EncodeToString start "Some [0x64]" start]
  from inst run obtain ks rs pre where
    ks: "subtreeKeys (Suc (Suc 0)) decls0 txSorted 2 = Some ks"
      "rightmostLeaf (Suc (Suc 0)) decls0 txSorted 2 = Some rs"
      "rs \<noteq> [] \<longrightarrow> Some [0x64] = Some (last ks)"
      "ascending ks \<and> rs \<noteq> [] \<longrightarrow>
         (\<exists>k \<in> set ks. Some [0x64] = Some k)
         \<and> (\<forall>k \<in> set ks. compareKeys (Some k) (Some [0x64]) \<le> 0)"
    by blast
  from ks(1) keys have k: "ks = [[0x61], [0x62], [0x63], [0x64]]"
    by simp
  from ks(2) right have r: "rs = [[0x63], [0x64]]"
    by simp
  from ks(3) r have lst: "Some [0x64] = Some (last ks)"
    by simp
  from ks(4) asc k r have "\<forall>k \<in> set ks. compareKeys (Some k) (Some [0x64]) \<le> 0"
    by simp
  then have cmp: "compareKeys (Some [0x61]) (Some [0x64]) \<le> 0"
      "compareKeys (Some [0x62]) (Some [0x64]) \<le> 0"
      "compareKeys (Some [0x63]) (Some [0x64]) \<le> 0"
      "compareKeys (Some [0x64]) (Some [0x64]) \<le> 0"
    unfolding k by simp_all
  from inst tree obtain n0 where "\<forall>m\<ge>n0. recursivelyCheckPagesInternal m decls0 txSorted 2 None
      None [] EncodeToString start \<noteq> None"
    by blast
  then have "recursivelyCheckPagesInternal n0 decls0 txSorted 2 None None [] EncodeToString start
      \<noteq> None"
    by simp
  then have ex: "\<exists>n0. recursivelyCheckPagesInternal n0 decls0 txSorted 2 None None []
      EncodeToString start \<noteq> None" ..
  from run keys right asc lst [unfolded k] cmp tree ex show ?thesis
    by (intro conjI)
qed

text \<open>
  Claim C6 as stated fails. The leaf page 2 of \<open>txUnsorted\<close> holds \<^verbatim>\<open>"b"\<close> and then \<^verbatim>\<open>"a"\<close>: the
  validation reports the order and returns \<^verbatim>\<open>"a"\<close>, which is not the greatest key of the page.
  In \<open>txTrailing\<close> the subtree of page 2 holds the key \<^verbatim>\<open>"a"\<close> and its last leaf is empty: the
  validation sends nothing and returns \<^verbatim>\<open>nil\<close>.
\<close>

theorem recursivelyCheckPages_not_greatest:
  "recursivelyCheckPagesInternal (Suc 0) decls0 txUnsorted 2 None None [] EncodeToString start =
     Some (Some [0x61], start\<lparr>ch := [LeafOutOfOrder 1 ''61'' 2 ''62'' [2]]\<rparr>)
   \<and> subtreeKeys (Suc 0) decls0 txUnsorted 2 = Some [[0x62], [0x61]]
   \<and> compareKeys (Some [0x62]) (Some [0x61]) > 0
   \<and> recursivelyCheckPagesInternal (Suc (Suc 0)) decls0 txTrailing 2 None None [] EncodeToString
        start = Some (None, start)
   \<and> subtreeKeys (Suc (Suc 0)) decls0 txTrailing 2 = Some [[0x61]]
   \<and> rightmostLeaf (Suc (Suc 0)) decls0 txTrailing 2 = Some []"
  by (simp add: run_simps txUnsorted_def txTrailing_def)

subsection \<open>The lower bound of a sibling subtree\<close>

lemma branchLoop_runningMin_unread:
  "0 < i \<Longrightarrow>
     branchLoop n D t pg maxKeyOpen pagesStack keyToString i es runningMin maxKeyInSubtree s =
     branchLoop n D t pg maxKeyOpen pagesStack keyToString i es runningMin1 maxKeyInSubtree s"
  by (cases es) (simp_all add: branchLoop_Cons branchChecks_def)

lemma gap_seed:
  "seedReachable n decls0 txGap (scanFreed (freelist_all txGap) start) =
     Some (start\<lparr>reachable := [0 \<mapsto> leafPage 0 [], 1 \<mapsto> leafPage 1 []]\<rparr>)"
  by (simp add: seedReachable_def txGap_def decls0_def leafPage_def)

lemma gap_walk:
  "forEachPage (Suc (Suc (Suc 0))) decls0 txGap 2 0 (visitPage decls0 txGap)
     (start\<lparr>reachable := [0 \<mapsto> leafPage 0 [], 1 \<mapsto> leafPage 1 []]\<rparr>) =
   Some (start\<lparr>reachable := [0 \<mapsto> leafPage 0 [], 1 \<mapsto> leafPage 1 [],
      2 \<mapsto> branchPage 2 [([0x61], 3), ([0x62], 4)], 3 \<mapsto> leafPage 3 [[0x61]],
      4 \<mapsto> branchPage 4 [([0x62], 5), ([0x30], 6)], 5 \<mapsto> leafPage 5 [],
      6 \<mapsto> leafPage 6 [[0x30]]]\<rparr>)"
  by (simp add: run_simps txGap_def)

lemma gap_keys:
  "recursivelyCheckPages (Suc (Suc (Suc 0))) decls0 txGap 2 EncodeToString s = Some (Some [0x30], s)"
  by (simp add: run_simps txGap_def)

lemma gap_sweep:
  "sweep txGap 0 (start\<lparr>reachable := [0 \<mapsto> leafPage 0 [], 1 \<mapsto> leafPage 1 [],
      2 \<mapsto> branchPage 2 [([0x61], 3), ([0x62], 4)], 3 \<mapsto> leafPage 3 [[0x61]],
      4 \<mapsto> branchPage 4 [([0x62], 5), ([0x30], 6)], 5 \<mapsto> leafPage 5 [],
      6 \<mapsto> leafPage 6 [[0x30]]]\<rparr>) =
    start\<lparr>reachable := [0 \<mapsto> leafPage 0 [], 1 \<mapsto> leafPage 1 [],
      2 \<mapsto> branchPage 2 [([0x61], 3), ([0x62], 4)], 3 \<mapsto> leafPage 3 [[0x61]],
      4 \<mapsto> branchPage 4 [([0x62], 5), ([0x30], 6)], 5 \<mapsto> leafPage 5 [],
      6 \<mapsto> leafPage 6 [[0x30]]]\<rparr>"
  by (simp add: sweep.simps txGap_def freed_at_def start_def)

lemma gap_check:
  "check (Suc (Suc (Suc 0))) decls0 txGap HexKeyValueStringer =
    Some (start\<lparr>reachable := [0 \<mapsto> leafPage 0 [], 1 \<mapsto> leafPage 1 [],
      2 \<mapsto> branchPage 2 [([0x61], 3), ([0x62], 4)], 3 \<mapsto> leafPage 3 [[0x61]],
      4 \<mapsto> branchPage 4 [([0x62], 5), ([0x30], 6)], 5 \<mapsto> leafPage 5 [],
      6 \<mapsto> leafPage 6 [[0x30]]]\<rparr>)"
proof -
  have root: "root_bucket txGap = Bucket 2 []"
    by (simp add: txGap_def)
  have hex: "KeyToString HexKeyValueStringer = EncodeToString"
    by (simp add: HexKeyValueStringer_def)
  show ?thesis
    unfolding check_def Let_def gap_seed root
    by (simp add: gap_walk gap_keys gap_sweep hex del: forEachPage.simps)
qed

text \<open>
  Claim C3 at \<open>txGap\<close>. The subtree of element 0 of the root page 2 is the leaf page 3; its
  validation returns \<^verbatim>\<open>"a"\<close>, which line 141 stores in \<^verbatim>\<open>runningMin\<close>. The subtree of element 1
  is page 4 and holds the key \<^verbatim>\<open>"0"\<close>, which is below \<^verbatim>\<open>"a"\<close>. The whole check sends nothing:
  for an element index above 0 the branch loop never reads \<^verbatim>\<open>runningMin\<close> (line 124 tests
  \<^verbatim>\<open>i == 0\<close>), while the leaf loop compares with it at every index above 0 (lines 153 and 157).
\<close>

theorem check_misses_key_below_previous_max:
  "map_option ch (check (Suc (Suc (Suc 0))) decls0 txGap HexKeyValueStringer) = Some []
   \<and> map_option fst (recursivelyCheckPagesInternal (Suc 0) decls0 txGap 3 (Some [0x61])
        (Some [0x62]) [2] EncodeToString start) = Some (Some [0x61])
   \<and> subtreeKeys (Suc (Suc 0)) decls0 txGap 4 = Some [[0x30]]
   \<and> compareKeys (Some [0x30]) (Some [0x61]) < 0"
proof -
  have "map_option fst (recursivelyCheckPagesInternal (Suc 0) decls0 txGap 3 (Some [0x61])
        (Some [0x62]) [2] EncodeToString start) = Some (Some [0x61])"
    by (simp add: run_simps txGap_def)
  moreover have "subtreeKeys (Suc (Suc 0)) decls0 txGap 4 = Some [[0x30]]"
    by (simp add: run_simps txGap_def)
  moreover have "compareKeys (Some [0x30]) (Some [0x61]) < 0"
    by (simp add: compareKeys_def bytes_of_def)
  ultimately show ?thesis
    by (simp add: gap_check start_def)
qed

end
